theory Spec2Isabelle
  imports Complex_Main "HOL-Library.Sublist" "HOL-Library.Log_Nat"
begin

section \<open>Strings\<close>

text \<open>
  A Python \<^verbatim>\<open>str\<close> is modelled as a \<^typ>\<open>string\<close>: a list of characters, each
  standing for one code point below 256. \<^verbatim>\<open>str.split()\<close>, \<^verbatim>\<open>str.strip()\<close> and the
  regular expression class \<^verbatim>\<open>\s\<close> all use the same whitespace test; below 256 it
  holds for the code points 9-13, 28-32, 133 and 160.
\<close>

definition is_space :: "char \<Rightarrow> bool" where
  "is_space c = (of_char c \<in> {9, 10, 11, 12, 13, 28, 29, 30, 31, 32, 133, 160 :: nat})"

text \<open>
  \<^verbatim>\<open>s.split()\<close>: the maximal runs of non-whitespace characters, in order. The first
  argument is the word being read (CPython scans the string once, the same way).
\<close>

fun split_from :: "string \<Rightarrow> string \<Rightarrow> string list" where
  "split_from w [] = (if w = [] then [] else [w])"
| "split_from w (c # cs) =
     (if is_space c then (if w = [] then split_from [] cs else w # split_from [] cs)
      else split_from (w @ [c]) cs)"

definition split :: "string \<Rightarrow> string list" where
  "split s = split_from [] s"

text \<open>\<^verbatim>\<open>s.strip()\<close>, \<^verbatim>\<open>s.rstrip(".")\<close>, \<^verbatim>\<open>sep.join(xs)\<close>, \<^verbatim>\<open>s.startswith(p)\<close>.\<close>

definition strip :: "string \<Rightarrow> string" where
  "strip s = rev (dropWhile is_space (rev (dropWhile is_space s)))"

definition rstrip_dot :: "string \<Rightarrow> string" where
  "rstrip_dot s = rev (dropWhile (\<lambda>c. c = CHR ''.'') (rev s))"

fun join :: "string \<Rightarrow> string list \<Rightarrow> string" where
  "join sep [] = []"
| "join sep [x] = x"
| "join sep (x # y # ys) = x @ sep @ join sep (y # ys)"

definition startswith :: "string \<Rightarrow> string \<Rightarrow> bool" where
  "startswith s p = prefix p s"

text \<open>\<^verbatim>\<open>s.startswith((p1, p2, ...))\<close> with a tuple: some member is a prefix.\<close>

definition startswith_any :: "string \<Rightarrow> string list \<Rightarrow> bool" where
  "startswith_any s ps = list_ex (startswith s) ps"

text \<open>
  \<^verbatim>\<open>re.sub(r"^(A|B|C),?\s*", repl, s)\<close> for literal alternatives: the pattern is
  anchored at the start of the string, the alternatives are tried in order, then one
  optional comma and all following whitespace are consumed (both greedy). The match
  is never empty, so nothing after it can match \<^verbatim>\<open>^\<close>; without a match the string
  is returned as it is. The replacements used contain no backslash.
\<close>

definition skip_comma :: "string \<Rightarrow> string" where
  "skip_comma r = (case r of [] \<Rightarrow> [] | c # cs \<Rightarrow> if c = CHR '','' then cs else r)"

definition re_sub_opener :: "string list \<Rightarrow> string \<Rightarrow> string \<Rightarrow> string" where
  "re_sub_opener alts repl s =
     (case List.find (startswith s) alts of
        None \<Rightarrow> s
      | Some p \<Rightarrow> repl @ dropWhile is_space (skip_comma (drop (length p) s)))"

section \<open>Numbers\<close>

text \<open>
  A Python \<^verbatim>\<open>float\<close> is a double: a rational number of the form \<open>m * 2^k\<close> with
  \<open>\<bar>m\<bar> < 2^53\<close> and \<open>k \<ge> -1074\<close>. \<open>to_double\<close> rounds a rational to the nearest
  double, a tie going to the even significand; doubles beyond the largest finite
  one are not modelled (the program's values do not reach them). \<open>float_exponent\<close>
  is the binary exponent of a positive rational: \<open>2^e \<le> x < 2^(e+1)\<close>.
\<close>

definition round_half_even :: "rat \<Rightarrow> int" where
  "round_half_even x =
     (let f = \<lfloor>x\<rfloor>; d = x - of_int f
      in if d < 1 / 2 then f else if 1 / 2 < d then f + 1 else if even f then f else f + 1)"

definition pow2 :: "int \<Rightarrow> rat" where
  "pow2 n = (if 0 \<le> n then 2 ^ nat n else 1 / 2 ^ nat (- n))"

definition float_exponent :: "rat \<Rightarrow> int" where
  "float_exponent x = (if 1 \<le> x then bitlen \<lfloor>x\<rfloor> - 1 else - bitlen (\<lceil>1 / x\<rceil> - 1))"

definition to_double :: "rat \<Rightarrow> rat" where
  "to_double x =
     (if x = 0 then 0
      else (let e = max (float_exponent \<bar>x\<bar>) (- 1022); ulp = pow2 (e - 52)
            in of_int (round_half_even (x / ulp)) * ulp))"

text \<open>
  \<^verbatim>\<open>round(x, 2)\<close> rounds \<open>x\<close> to the nearest multiple of 1/100, a tie going to the
  even one, and returns the double nearest to that two-decimal value. \<^verbatim>\<open>a - b\<close> on
  floats returns the double nearest to the difference.
\<close>

definition decimal2 :: "rat \<Rightarrow> rat" where
  "decimal2 x = of_int (round_half_even (x * 100)) / 100"

definition round2 :: "rat \<Rightarrow> rat" where
  "round2 x = to_double (decimal2 x)"

definition float_sub :: "rat \<Rightarrow> rat \<Rightarrow> rat" where
  "float_sub a b = to_double (a - b)"

text \<open>
  Inside \<open>analyze_burstiness\<close> the arithmetic is exact: the rational it returns
  stands for the double the code computes, and the rounding error of its five
  operations is not part of the model. The thresholds \<^verbatim>\<open>0.1\<close> and \<^verbatim>\<open>0.3\<close> are written
  1/10 and 3/10: \<^verbatim>\<open>random()\<close> returns multiples of \<open>2^-53\<close>, and on those the
  comparison with the nearest double and the comparison with the fraction agree.
\<close>

section \<open>The pseudorandom generator\<close>

text \<open>
  The module \<^verbatim>\<open>random\<close> is the one piece of mutable state: a generator whose state
  is threaded through every call. It is a parameter: a state type \<open>'g\<close> with the two
  primitives all the calls of the program reduce to. \<open>gen_random\<close> is
  \<^verbatim>\<open>random.random()\<close>, \<open>gen_randbelow n\<close> is \<^verbatim>\<open>Random._randbelow(n)\<close>.
\<close>

record 'g rng =
  gen_random :: "'g \<Rightarrow> rat \<times> 'g"
  gen_randbelow :: "nat \<Rightarrow> 'g \<Rightarrow> nat \<times> 'g"

text \<open>What the library promises of \<^verbatim>\<open>_randbelow(n)\<close>: a value in \<open>[0, n)\<close>.\<close>

definition rng_ok :: "'g rng \<Rightarrow> bool" where
  "rng_ok R = (\<forall>n g. 0 < n \<longrightarrow> fst (gen_randbelow R n g) < n)"

text \<open>
  \<^verbatim>\<open>random.choice(seq)\<close> is \<^verbatim>\<open>seq[_randbelow(len(seq))]\<close>; \<^verbatim>\<open>random.randint(a, b)\<close> is
  \<^verbatim>\<open>a + _randbelow(b - a + 1)\<close>. The program calls them on non-empty lists and
  non-empty ranges only.
\<close>

definition random_choice :: "'g rng \<Rightarrow> 'a list \<Rightarrow> 'g \<Rightarrow> 'a \<times> 'g" where
  "random_choice R xs g = (let (k, g') = gen_randbelow R (length xs) g in (xs ! k, g'))"

definition random_randint :: "'g rng \<Rightarrow> nat \<Rightarrow> nat \<Rightarrow> 'g \<Rightarrow> nat \<times> 'g" where
  "random_randint R a b g = (let (k, g') = gen_randbelow R (b + 1 - a) g in (a + k, g'))"

section \<open>The engine\<close>

text \<open>
  The sentence segmenter \<^verbatim>\<open>nlp\<close> is an external library. It is a parameter \<open>seg\<close>:
  the texts of the sentences of \<^verbatim>\<open>nlp(text).sents\<close>, in order.
\<close>

type_synonym segmenter = "string \<Rightarrow> string list"

definition transition_variations :: "(string \<times> string list) list" where
  "transition_variations =
     [(''addition'', [''Plus,'', ''And also,'', ''On top of that,'', ''Not to mention,'']),
      (''contrast'', [''But honestly,'', ''Though,'', ''Still,'', ''On the flip side,'']),
      (''conclusion'', [''Basically,'', ''So yeah,'', ''In short,'', ''All in all,'']),
      (''example'', [''Like,'', ''For instance,'', ''Say,''])]"

definition variations :: "string \<Rightarrow> string list" where
  "variations k = (case map_of transition_variations k of Some vs \<Rightarrow> vs | None \<Rightarrow> [])"

definition filler_words :: "string list" where
  "filler_words =
     [''literally'', ''basically'', ''actually'', ''honestly'', ''kind of'', ''sort of'', ''just'']"

subsection \<open>analyze\_burstiness\<close>

definition lengths :: "segmenter \<Rightarrow> string \<Rightarrow> int list" where
  "lengths seg text = map (\<lambda>sent. int (length (split sent))) (seg text)"

definition analyze_burstiness :: "segmenter \<Rightarrow> string \<Rightarrow> rat" where
  "analyze_burstiness seg text =
     (let ls = lengths seg text
      in if ls = [] then 0
         else (let mean = of_int (sum_list ls) / of_nat (length ls)
               in sum_list (map (\<lambda>x. (of_int x - mean) ^ 2) ls) / of_nat (length ls)))"

subsection \<open>inject\_linguistic\_noise\<close>

definition addition_openers :: "string list" where
  "addition_openers = [''Furthermore'', ''Moreover'', ''Additionally'']"

definition contrast_openers :: "string list" where
  "contrast_openers = [''However'']"

text \<open>Step 1 of the loop body, on the stripped sentence.\<close>

definition break_transition :: "'g rng \<Rightarrow> string \<Rightarrow> 'g \<Rightarrow> string \<times> 'g" where
  "break_transition R s_text g =
     (if startswith_any s_text addition_openers then
        (let (v, g') = random_choice R (variations ''addition'') g
         in (re_sub_opener addition_openers (v @ '' '') s_text, g'))
      else if startswith s_text ''However'' then
        (let (v, g') = random_choice R (variations ''contrast'') g
         in (re_sub_opener contrast_openers (v @ '' '') s_text, g'))
      else (s_text, g))"

text \<open>\<^verbatim>\<open>words.insert(idx, w)\<close>; an index beyond the end appends, as \<open>take\<close> and \<open>drop\<close> do.\<close>

definition list_insert :: "nat \<Rightarrow> 'a \<Rightarrow> 'a list \<Rightarrow> 'a list" where
  "list_insert idx w ws = take idx ws @ w # drop idx ws"

text \<open>Step 2 of the loop body.\<close>

definition inject_filler :: "'g rng \<Rightarrow> string \<Rightarrow> 'g \<Rightarrow> string \<times> 'g" where
  "inject_filler R s_text g =
     (let (r, g1) = gen_random R g
      in if r < 1 / 10 then
           (let words = split s_text
            in if 5 < length words then
                 (let (idx, g2) = random_randint R 1 (length words - 1) g1;
                      (w, g3) = random_choice R filler_words g2
                  in (join '' '' (list_insert idx w words), g3))
               else (s_text, g1))
         else (s_text, g1))"

definition inject_sentence :: "'g rng \<Rightarrow> string \<Rightarrow> 'g \<Rightarrow> string \<times> 'g" where
  "inject_sentence R sent g =
     (let (s1, g1) = break_transition R (strip sent) g in inject_filler R s1 g1)"

fun inject_loop :: "'g rng \<Rightarrow> string list \<Rightarrow> 'g \<Rightarrow> string list \<times> 'g" where
  "inject_loop R [] g = ([], g)"
| "inject_loop R (sent # sentences) g =
     (let (s_text, g1) = inject_sentence R sent g;
          (modified_sentences, g2) = inject_loop R sentences g1
      in (s_text # modified_sentences, g2))"

definition inject_linguistic_noise :: "'g rng \<Rightarrow> segmenter \<Rightarrow> string \<Rightarrow> 'g \<Rightarrow> string \<times> 'g" where
  "inject_linguistic_noise R seg text g =
     (let (modified_sentences, g') = inject_loop R (seg text) g
      in (join '' '' modified_sentences, g'))"

subsection \<open>optimize\_rhythm\<close>

text \<open>
  The \<^verbatim>\<open>while\<close> loop, with its cursor \<open>i\<close> and the list \<open>new_text\<close> built so far. The
  conjunction short-circuits: the generator is asked only when a next sentence
  exists and both word counts are below 10.
\<close>

function optimize_loop :: "'g rng \<Rightarrow> string list \<Rightarrow> nat \<Rightarrow> string list \<Rightarrow> 'g \<Rightarrow> string list \<times> 'g" where
  "optimize_loop R sents i new_text g =
     (if i < length sents then
        (let curr = strip (sents ! i)
         in if i + 1 < length sents \<and> length (split curr) < 10
               \<and> length (split (sents ! (i + 1))) < 10 then
              (let (r, g') = gen_random R g
               in if r < 3 / 10 then
                    optimize_loop R sents (i + 2)
                      (new_text @ [rstrip_dot curr @ '', and '' @ strip (sents ! (i + 1))]) g'
                  else optimize_loop R sents (i + 1) (new_text @ [curr]) g')
            else optimize_loop R sents (i + 1) (new_text @ [curr]) g)
      else (new_text, g))"
  by pat_completeness auto
termination
  by (relation "measure (\<lambda>(R, sents, i, new_text, g). length sents - i)") auto

declare optimize_loop.simps [simp del]

definition optimize_rhythm :: "'g rng \<Rightarrow> segmenter \<Rightarrow> string \<Rightarrow> 'g \<Rightarrow> string \<times> 'g" where
  "optimize_rhythm R seg text g =
     (let sents = seg text
      in if length sents < 2 then (text, g)
         else (let (new_text, g') = optimize_loop R sents 0 [] g
               in (join '' '' new_text, g')))"

subsection \<open>process\<close>

record metrics =
  initial_burstiness :: rat
  final_burstiness :: rat
  improvement :: rat

record result =
  humanized :: string
  metrics :: metrics

definition process :: "'g rng \<Rightarrow> segmenter \<Rightarrow> string \<Rightarrow> 'g \<Rightarrow> result \<times> 'g" where
  "process R seg text g =
     (let initial = analyze_burstiness seg text;
          (processed1, g1) = inject_linguistic_noise R seg text g;
          (processed, g2) = optimize_rhythm R seg processed1 g1;
          final = analyze_burstiness seg processed
      in (\<lparr>humanized = processed,
           metrics = \<lparr>initial_burstiness = round2 initial,
                      final_burstiness = round2 final,
                      improvement = round2 (float_sub final initial)\<rparr>\<rparr>, g2))"


section \<open>Notions used to state the properties\<close>

text \<open>A word: a non-empty string without whitespace, as \<^verbatim>\<open>split()\<close> returns them.\<close>

definition is_word :: "string \<Rightarrow> bool" where
  "is_word w = (w \<noteq> [] \<and> (\<forall>c\<in>set w. \<not> is_space c))"

text \<open>
  The variance as the specification words it: the mean of the squared deviations
  from the mean, where the mean of \<open>N\<close> values is their sum divided by \<open>N\<close>.
\<close>

definition spec_mean :: "rat list \<Rightarrow> rat" where
  "spec_mean xs = sum_list xs / of_nat (length xs)"

definition spec_population_variance :: "int list \<Rightarrow> rat" where
  "spec_population_variance cs =
     spec_mean (map (\<lambda>c. (of_int c - spec_mean (map of_int cs)) ^ 2) cs)"

text \<open>
  The opener test as the specification words it: the leading whitespace-delimited
  token of the sentence is an opener, or an opener followed by a comma.
\<close>

definition spec_leading_token_match :: "string list \<Rightarrow> string \<Rightarrow> bool" where
  "spec_leading_token_match openers sent =
     (case split sent of [] \<Rightarrow> False
      | tok # _ \<Rightarrow> tok \<in> set openers \<or> tok \<in> set (map (\<lambda>p. p @ '','') openers))"

text \<open>
  The loop of \<open>optimize_rhythm\<close> as a recursion over the sentences still ahead of
  the cursor; \<open>optimize_loop_units\<close> below shows that the loop computes it. A unit of
  the output is made of one sentence or of two adjacent ones.
\<close>

fun optimize_units :: "'g rng \<Rightarrow> string list \<Rightarrow> 'g \<Rightarrow> string list \<times> 'g" where
  "optimize_units R [] g = ([], g)"
| "optimize_units R [s] g = ([strip s], g)"
| "optimize_units R (s # t # rest) g =
     (if length (split (strip s)) < 10 \<and> length (split t) < 10 then
        (if fst (gen_random R g) < 3 / 10 then
           ((rstrip_dot (strip s) @ '', and '' @ strip t)
              # fst (optimize_units R rest (snd (gen_random R g))),
            snd (optimize_units R rest (snd (gen_random R g))))
         else
           (strip s # fst (optimize_units R (t # rest) (snd (gen_random R g))),
            snd (optimize_units R (t # rest) (snd (gen_random R g)))))
      else (strip s # fst (optimize_units R (t # rest) g),
            snd (optimize_units R (t # rest) g)))"

definition unit_of :: "string list \<Rightarrow> string" where
  "unit_of c = (case c of [s] \<Rightarrow> strip s
                | [s, t] \<Rightarrow> rstrip_dot (strip s) @ '', and '' @ strip t
                | _ \<Rightarrow> [])"

subsection \<open>Instances for the examples\<close>

text \<open>
  A generator that reads its draws off a tape: the state is the list of draws still
  to come, \<open>random()\<close> returns the tenths digit \<open>d mod 10\<close> of the next draw and
  \<open>_randbelow(n)\<close> returns \<open>d mod n\<close>. A segmenter that ends a sentence at every
  full stop.
\<close>

definition tape_rng :: "nat list rng" where
  "tape_rng =
     \<lparr>gen_random = (\<lambda>g. case g of [] \<Rightarrow> (0, []) | d # ds \<Rightarrow> (of_nat (d mod 10) / 10, ds)),
      gen_randbelow = (\<lambda>n g. case g of [] \<Rightarrow> (0, []) | d # ds \<Rightarrow> (d mod n, ds))\<rparr>"

fun period_seg_from :: "string \<Rightarrow> string \<Rightarrow> string list" where
  "period_seg_from w [] = (if w = [] then [] else [w])"
| "period_seg_from w (c # cs) =
     (if c = CHR ''.'' then (w @ [c]) # period_seg_from [] cs else period_seg_from (w @ [c]) cs)"

definition period_seg :: segmenter where
  "period_seg text = filter (\<lambda>s. s \<noteq> []) (map strip (period_seg_from [] text))"

text \<open>The metrics of one run, used as an example below.\<close>

definition example_metrics :: metrics where
  "example_metrics = metrics (fst (process tape_rng period_seg
     ''a b c d e f. a b c d e f g. a b c d e f g.'' [5, 5, 0, 3, 1, 5, 5]))"

section \<open>Splitting and joining\<close>

text \<open>
  Splitting at a whitespace character splits the word lists; the words of a string
  are non-empty and free of whitespace, so splitting a joined list of words gives
  the words back.
\<close>

lemma split_from_append_space:
  "is_space c \<Longrightarrow> split_from w (a @ c # b) = split_from w a @ split_from [] b"
  by (induction a arbitrary: w) auto

lemma split_append_space: "is_space c \<Longrightarrow> split (a @ c # b) = split a @ split b"
  by (simp add: split_def split_from_append_space)

lemma split_from_nospace:
  "\<forall>c\<in>set v. \<not> is_space c \<Longrightarrow> split_from w v = (if w @ v = [] then [] else [w @ v])"
  by (induction v arbitrary: w) auto

lemma split_word: "is_word w \<Longrightarrow> split w = [w]"
  by (simp add: is_word_def split_def split_from_nospace)

lemma split_from_words:
  "(\<forall>c\<in>set w. \<not> is_space c) \<Longrightarrow> \<forall>x\<in>set (split_from w s). is_word x"
proof (induction s arbitrary: w)
  case Nil
  then show ?case by (simp add: is_word_def)
next
  case (Cons a s)
  have e: "\<forall>x\<in>set (split_from [] s). is_word x" using Cons.IH[of "[]"] by simp
  have n: "\<not> is_space a \<Longrightarrow> \<forall>x\<in>set (split_from (w @ [a]) s). is_word x"
    using Cons.IH[of "w @ [a]"] Cons.prems by simp
  show ?case using e n Cons.prems by (simp add: is_word_def)
qed

lemma split_words: "x \<in> set (split s) \<Longrightarrow> is_word x"
  using split_from_words[of "[]" s] by (simp add: split_def)

lemma split_join: "split (join '' '' xs) = concat (map split xs)"
proof (induction "'' ''" xs rule: join.induct)
  case 1
  then show ?case by (simp add: split_def)
next
  case (2 x)
  then show ?case by simp
next
  case (3 x y ys)
  have "is_space CHR '' ''" by (simp add: is_space_def)
  then show ?case using 3 by (simp add: split_append_space)
qed

lemma concat_split_words: "\<forall>w\<in>set ws. is_word w \<Longrightarrow> concat (map split ws) = ws"
  by (induction ws) (auto simp: split_word)

lemma split_list_insert:
  "split (join '' '' (list_insert idx w (split s))) = take idx (split s) @ split w @ drop idx (split s)"
proof -
  have a: "\<forall>x\<in>set (take idx (split s)). is_word x" "\<forall>x\<in>set (drop idx (split s)). is_word x"
    by (auto dest: in_set_takeD in_set_dropD split_words)
  show ?thesis
    by (simp add: split_join list_insert_def concat_split_words a)
qed

text \<open>
  The first word of a string is a prefix of the stripped string.
\<close>

lemma split_from_hd_acc:
  "split_from w s = tok # ws \<Longrightarrow> w \<noteq> [] \<Longrightarrow>
     tok = w @ takeWhile (\<lambda>c. \<not> is_space c) s"
proof (induction s arbitrary: w)
  case Nil
  then show ?case by simp
next
  case (Cons a s)
  show ?case
  proof (cases "is_space a")
    case True
    then show ?thesis using Cons.prems by simp
  next
    case False
    then show ?thesis using Cons.prems Cons.IH [of "w @ [a]"] by simp
  qed
qed

lemma split_hd:
  "split s = tok # ws \<Longrightarrow> tok = takeWhile (\<lambda>c. \<not> is_space c) (dropWhile is_space s)"
  unfolding split_def
proof (induction s)
  case Nil
  then show ?case by simp
next
  case (Cons c cs)
  show ?case
  proof (cases "is_space c")
    case True
    then show ?thesis using Cons by simp
  next
    case False
    then have "split_from [c] cs = tok # ws" using Cons.prems by simp
    then show ?thesis using False split_from_hd_acc [of "[c]" cs tok ws] by simp
  qed
qed

lemma prefix_rstrip:
  assumes "a \<noteq> []" "\<forall>c\<in>set a. \<not> is_space c"
  shows "prefix a (rev (dropWhile is_space (rev (a @ b))))"
proof (cases "\<forall>c\<in>set b. is_space c")
  case True
  have "\<not> is_space (last a)" using assms by simp
  then have "dropWhile is_space (rev a) = rev a"
    using assms(1) by (cases "rev a") (auto simp: last_rev [symmetric] simp del: last_rev)
  moreover have "dropWhile is_space (rev b @ rev a) = dropWhile is_space (rev a)"
    using True by (intro dropWhile_append2) simp
  ultimately show ?thesis by simp
next
  case False
  then obtain x where "x \<in> set (rev b)" "\<not> is_space x" by auto
  then have "dropWhile is_space (rev b @ rev a) = dropWhile is_space (rev b) @ rev a"
    by (rule dropWhile_append1)
  then show ?thesis by simp
qed

lemma token_prefix_strip:
  assumes "split s = tok # ws"
  shows "prefix tok (strip s)"
proof -
  let ?d = "dropWhile is_space s"
  have t: "tok = takeWhile (\<lambda>c. \<not> is_space c) ?d" using assms by (rule split_hd)
  have w: "is_word tok" using assms split_words [of tok s] by simp
  have "?d = tok @ dropWhile (\<lambda>c. \<not> is_space c) ?d" using t by simp
  then have "strip s = rev (dropWhile is_space (rev (tok @ dropWhile (\<lambda>c. \<not> is_space c) ?d)))"
    by (simp add: strip_def)
  then show ?thesis using prefix_rstrip [of tok] w by (simp add: is_word_def)
qed

text \<open>
  Whitespace around a string does not change its words.
\<close>

lemma split_from_trailing:
  "\<forall>c\<in>set b. is_space c \<Longrightarrow> split_from w (a @ b) = split_from w a"
proof (induction b rule: rev_induct)
  case Nil
  then show ?case by simp
next
  case (snoc c b)
  then have "split_from w ((a @ b) @ c # []) = split_from w (a @ b) @ split_from [] []"
    by (intro split_from_append_space) simp
  then show ?case using snoc by simp
qed

lemma split_dropWhile: "split (dropWhile is_space s) = split s"
  by (induction s) (simp_all add: split_def)

lemma split_strip: "split (strip s) = split s"
proof -
  let ?d = "dropWhile is_space s"
  have "?d = rev (dropWhile is_space (rev ?d)) @ rev (takeWhile is_space (rev ?d))"
    by (metis rev_append rev_rev_ident takeWhile_dropWhile_id)
  moreover have "\<forall>c\<in>set (rev (takeWhile is_space (rev ?d))). is_space c"
    by (auto dest: set_takeWhileD)
  ultimately have "split ?d = split (rev (dropWhile is_space (rev ?d)))"
    unfolding split_def by (metis split_from_trailing)
  then show ?thesis by (simp add: strip_def split_dropWhile)
qed

section \<open>The generator\<close>

lemma randint_ge: "a \<le> fst (random_randint R a b g)"
  by (simp add: random_randint_def split_def Let_def case_prod_unfold)

lemma randint_le: "rng_ok R \<Longrightarrow> a \<le> b \<Longrightarrow> fst (random_randint R a b g) \<le> b"
proof -
  assume ok: "rng_ok R" and ab: "a \<le> b"
  have "fst (gen_randbelow R (b + 1 - a) g) < b + 1 - a"
    using ok ab by (simp add: rng_ok_def)
  then show ?thesis using ab by (simp add: random_randint_def case_prod_unfold Let_def)
qed

lemma choice_mem: "rng_ok R \<Longrightarrow> xs \<noteq> [] \<Longrightarrow> fst (random_choice R xs g) \<in> set xs"
  by (simp add: random_choice_def case_prod_unfold rng_ok_def Let_def)

lemma rng_ok_tape: "rng_ok tape_rng"
  by (auto simp: rng_ok_def tape_rng_def split: list.splits)

section \<open>The burstiness analyzer\<close>

lemma sum_list_of_int: "sum_list (map of_int xs) = (of_int (sum_list xs) :: rat)"
  by (induction xs) simp_all

lemma analyze_spec: "analyze_burstiness seg text =
    (if lengths seg text = [] then 0 else spec_population_variance (lengths seg text))"
  by (simp add: analyze_burstiness_def spec_population_variance_def spec_mean_def Let_def
      comp_def sum_list_of_int)

text \<open>
  C9: for every text and every segmentation, \<open>analyze_burstiness\<close> returns a value
  that is 0 or greater: it is a mean of squares.
\<close>

theorem analyze_nonneg: "0 \<le> analyze_burstiness seg text"
  by (auto simp: analyze_burstiness_def Let_def intro!: divide_nonneg_nonneg sum_list_nonneg)

text \<open>
  C1: for every text, \<open>analyze_burstiness\<close> returns the population variance (the sum
  of squared deviations divided by the number \<open>N\<close> of sentences) of the
  whitespace-delimited word counts of the sentences, and 0 when the segmenter
  yields no sentence; word counts 5, 5, 5 give 0 and word counts 2, 8 give 9.
\<close>

theorem analyze_population_variance:
  "analyze_burstiness seg text =
     (if seg text = [] then 0 else spec_population_variance (lengths seg text))
   \<and> (lengths seg text = [5, 5, 5] \<longrightarrow> analyze_burstiness seg text = 0)
   \<and> (lengths seg text = [2, 8] \<longrightarrow> analyze_burstiness seg text = 9)"
proof -
  have e: "(lengths seg text = []) = (seg text = [])" by (simp add: lengths_def)
  have a: "analyze_burstiness seg text =
     (if seg text = [] then 0 else spec_population_variance (lengths seg text))"
    using e by (simp add: analyze_spec)
  have b: "lengths seg text = [5, 5, 5] \<Longrightarrow> analyze_burstiness seg text = 0"
    by (simp add: analyze_burstiness_def Let_def)
  have c: "lengths seg text = [2, 8] \<Longrightarrow> analyze_burstiness seg text = 9"
    by (simp add: analyze_burstiness_def Let_def power2_eq_square)
  show ?thesis using a b c by blast
qed

theorem analyze_population_variance_witness:
  "lengths period_seg ''a b c d e. f g h i j. k l m n o.'' = [5, 5, 5]
   \<and> analyze_burstiness period_seg ''a b c d e. f g h i j. k l m n o.'' = 0
   \<and> lengths period_seg ''a b. c d e f g h i j.'' = [2, 8]
   \<and> analyze_burstiness period_seg ''a b. c d e f g h i j.'' = 9"
proof -
  have l1: "lengths period_seg ''a b c d e. f g h i j. k l m n o.'' = [5, 5, 5]"
    by code_simp
  have l2: "lengths period_seg ''a b. c d e f g h i j.'' = [2, 8]"
    by code_simp
  have r1: "analyze_burstiness period_seg ''a b c d e. f g h i j. k l m n o.'' = 0"
    using analyze_population_variance [of period_seg "''a b c d e. f g h i j. k l m n o.''"] l1
    by blast
  have r2: "analyze_burstiness period_seg ''a b. c d e f g h i j.'' = 9"
    using analyze_population_variance [of period_seg "''a b. c d e f g h i j.''"] l2
    by blast
  show ?thesis using l1 l2 r1 r2 by blast
qed

text \<open>
  Dividing by \<open>N - 1\<close> instead would give 18 on the counts 2, 8.
\<close>

lemma population_not_sample_variance:
  "spec_population_variance [2, 8] = 9 \<and>
   sum_list (map (\<lambda>c. (of_int c - spec_mean [2, 8]) ^ 2) [2, 8 :: int]) / (2 - 1) = (18 :: rat)"
  by (simp add: spec_population_variance_def spec_mean_def power2_eq_square)

section \<open>Rounding and the orchestrator\<close>

lemma round_half_even_err: "\<bar>of_int (round_half_even x) - x\<bar> \<le> 1 / 2"
proof -
  have "of_int \<lfloor>x\<rfloor> \<le> x" "x < of_int \<lfloor>x\<rfloor> + 1" by linarith+
  then show ?thesis
    by (auto simp: round_half_even_def Let_def abs_le_iff)
qed

lemma pow2_powi: "pow2 n = 2 powi n"
  by (simp add: pow2_def power_int_def field_simps)

lemma pow2_pos: "0 < pow2 n"
  by (simp add: pow2_powi)

lemma pow2_add: "pow2 (a + b) = pow2 a * pow2 b"
  by (simp add: pow2_powi power_int_add)

lemma pow2_mono: "a \<le> b \<Longrightarrow> pow2 a \<le> pow2 b"
  by (simp add: pow2_powi power_int_increasing)

lemma pow2_nat: "0 \<le> n \<Longrightarrow> pow2 n = 2 ^ nat n"
  by (simp add: pow2_def)

lemma float_exponent_lower:
  assumes "0 < x"
  shows "pow2 (float_exponent x) \<le> x"
proof (cases "1 \<le> x")
  case True
  then have n: "0 < \<lfloor>x\<rfloor>" by linarith
  have b: "0 \<le> bitlen \<lfloor>x\<rfloor> - 1"
    using n bitlen_eq_zero_iff [of "\<lfloor>x\<rfloor>"] bitlen_nonneg [of "\<lfloor>x\<rfloor>"] by linarith
  have "(2::int) ^ nat (bitlen \<lfloor>x\<rfloor> - 1) \<le> \<lfloor>x\<rfloor>" using bitlen_bounds [OF n] by simp
  then have "(of_int (2 ^ nat (bitlen \<lfloor>x\<rfloor> - 1)) :: rat) \<le> of_int \<lfloor>x\<rfloor>"
    by (simp only: of_int_le_iff)
  then have "(2::rat) ^ nat (bitlen \<lfloor>x\<rfloor> - 1) \<le> of_int \<lfloor>x\<rfloor>"
    by (simp only: of_int_power of_int_numeral)
  moreover have "of_int \<lfloor>x\<rfloor> \<le> x" by (rule of_int_floor_le)
  ultimately have "(2::rat) ^ nat (bitlen \<lfloor>x\<rfloor> - 1) \<le> x" by (rule order_trans)
  then show ?thesis using True b by (simp add: float_exponent_def pow2_nat)
next
  case False
  define m where "m = \<lceil>1 / x\<rceil> - 1"
  have y: "1 < 1 / x" using assms False by simp
  then have m: "0 < m" unfolding m_def by linarith
  have ub: "1 / x \<le> of_int m + 1" unfolding m_def using ceiling_correct [of "1 / x"] by simp
  have "m < 2 ^ nat (bitlen m)" using bitlen_bounds [OF m] by simp
  then have "m + 1 \<le> 2 ^ nat (bitlen m)" by simp
  then have "(of_int (m + 1) :: rat) \<le> of_int (2 ^ nat (bitlen m))"
    by (simp only: of_int_le_iff)
  then have "(of_int (m + 1) :: rat) \<le> 2 ^ nat (bitlen m)"
    by (simp only: of_int_power of_int_numeral)
  then have "1 / x \<le> 2 ^ nat (bitlen m)" using ub by simp
  then have "1 / 2 ^ nat (bitlen m) \<le> x" using assms by (simp add: field_simps)
  moreover have "0 < bitlen m" using m bitlen_eq_zero_iff [of m] bitlen_nonneg [of m] by linarith
  ultimately show ?thesis using False by (simp add: float_exponent_def pow2_def m_def)
qed

lemma float_exponent_upper:
  assumes "0 < x"
  shows "x < pow2 (float_exponent x + 1)"
proof (cases "1 \<le> x")
  case True
  then have n: "0 < \<lfloor>x\<rfloor>" by linarith
  have b: "0 < bitlen \<lfloor>x\<rfloor>" using n bitlen_eq_zero_iff [of "\<lfloor>x\<rfloor>"] bitlen_nonneg [of "\<lfloor>x\<rfloor>"] by linarith
  have "\<lfloor>x\<rfloor> < 2 ^ nat (bitlen \<lfloor>x\<rfloor>)" using bitlen_bounds [OF n] by simp
  then have "\<lfloor>x\<rfloor> + 1 \<le> 2 ^ nat (bitlen \<lfloor>x\<rfloor>)" by simp
  then have "(of_int (\<lfloor>x\<rfloor> + 1) :: rat) \<le> of_int (2 ^ nat (bitlen \<lfloor>x\<rfloor>))"
    by (simp only: of_int_le_iff)
  then have "(of_int (\<lfloor>x\<rfloor> + 1) :: rat) \<le> 2 ^ nat (bitlen \<lfloor>x\<rfloor>)"
    by (simp only: of_int_power of_int_numeral)
  moreover have "x < of_int (\<lfloor>x\<rfloor> + 1)" by linarith
  ultimately have "x < 2 ^ nat (bitlen \<lfloor>x\<rfloor>)" by (rule less_le_trans [rotated])
  then show ?thesis using True b by (simp add: float_exponent_def pow2_nat)
next
  case False
  define m where "m = \<lceil>1 / x\<rceil> - 1"
  have y: "1 < 1 / x" using assms False by simp
  then have m: "0 < m" unfolding m_def by linarith
  have lb: "of_int m < 1 / x" unfolding m_def using ceiling_correct [of "1 / x"] by simp
  have "2 ^ nat (bitlen m - 1) \<le> m" using bitlen_bounds [OF m] by simp
  then have "(of_int (2 ^ nat (bitlen m - 1)) :: rat) \<le> of_int m"
    by (simp only: of_int_le_iff)
  then have "(2::rat) ^ nat (bitlen m - 1) \<le> of_int m"
    by (simp only: of_int_power of_int_numeral)
  then have "2 ^ nat (bitlen m - 1) < 1 / x" using lb by linarith
  then have "x < 1 / 2 ^ nat (bitlen m - 1)" using assms by (simp add: field_simps)
  moreover have "0 < bitlen m" using m bitlen_eq_zero_iff [of m] bitlen_nonneg [of m] by linarith
  ultimately show ?thesis using False
    by (auto simp add: float_exponent_def pow2_def m_def nat_diff_distrib)
qed

lemma to_double_zero: "to_double 0 = 0"
  by (simp add: to_double_def)

lemma decimal2_zero: "decimal2 0 = 0"
  by (simp add: decimal2_def round_half_even_def)

lemma round2_zero: "round2 0 = 0"
  by (simp add: round2_def decimal2_zero to_double_zero)

lemma process_unfold:
  "process R seg text g =
     (let p1 = inject_linguistic_noise R seg text g;
          p2 = optimize_rhythm R seg (fst p1) (snd p1)
      in (\<lparr>humanized = fst p2,
           metrics = \<lparr>initial_burstiness = round2 (analyze_burstiness seg text),
                      final_burstiness = round2 (analyze_burstiness seg (fst p2)),
                      improvement = round2 (float_sub (analyze_burstiness seg (fst p2))
                                      (analyze_burstiness seg text))\<rparr>\<rparr>, snd p2))"
  by (simp add: process_def Let_def case_prod_unfold)

text \<open>
  The error of \<open>to_double\<close>: half a unit in the last place, which is at most
  \<open>2^-53\<close> of the value in the normal range and \<open>2^-1075\<close> below it.
\<close>

lemma to_double_err_ulp:
  assumes "x \<noteq> 0"
  shows "\<bar>to_double x - x\<bar> \<le> pow2 (max (float_exponent \<bar>x\<bar>) (- 1022) - 52) / 2"
proof -
  define u where "u = pow2 (max (float_exponent \<bar>x\<bar>) (- 1022) - 52)"
  define k where "k = round_half_even (x / u)"
  have u: "0 < u" unfolding u_def by (rule pow2_pos)
  have "\<bar>of_int k - x / u\<bar> \<le> 1 / 2" unfolding k_def by (rule round_half_even_err)
  then have "\<bar>of_int k - x / u\<bar> * u \<le> 1 / 2 * u"
    using u by (intro mult_right_mono) simp_all
  moreover have "(of_int k - x / u) * u = of_int k * u - x"
    using u by (simp add: left_diff_distrib)
  then have "\<bar>of_int k - x / u\<bar> * u = \<bar>of_int k * u - x\<bar>"
    using u by (metis abs_mult abs_of_pos)
  ultimately have e: "\<bar>of_int k * u - x\<bar> \<le> u / 2" by simp
  have "to_double x = of_int k * u"
    using assms by (simp add: to_double_def Let_def u_def k_def)
  then show ?thesis using e unfolding u_def by simp
qed

lemma pow2_half: "pow2 (n - 52) / 2 = pow2 n / 2 ^ 53"
proof -
  have "pow2 (n - 52) = pow2 n * pow2 (- 52)" using pow2_add [of n "- 52"] by simp
  then show ?thesis by (simp add: pow2_def)
qed

lemma to_double_rel:
  assumes "pow2 (- 1022) \<le> \<bar>x\<bar>"
  shows "\<bar>to_double x - x\<bar> \<le> \<bar>x\<bar> / 2 ^ 53"
proof -
  have pos: "0 < \<bar>x\<bar>" using assms pow2_pos [of "- 1022"] by linarith
  then have nz: "x \<noteq> 0" by simp
  have "\<not> float_exponent \<bar>x\<bar> + 1 \<le> - 1022"
  proof
    assume "float_exponent \<bar>x\<bar> + 1 \<le> - 1022"
    then have "pow2 (float_exponent \<bar>x\<bar> + 1) \<le> pow2 (- 1022)" by (rule pow2_mono)
    then show False using float_exponent_upper [OF pos] assms by linarith
  qed
  then have m: "max (float_exponent \<bar>x\<bar>) (- 1022) = float_exponent \<bar>x\<bar>" by simp
  have "\<bar>to_double x - x\<bar> \<le> pow2 (float_exponent \<bar>x\<bar>) / 2 ^ 53"
    using to_double_err_ulp [OF nz] by (simp only: m pow2_half)
  moreover have "pow2 (float_exponent \<bar>x\<bar>) / 2 ^ 53 \<le> \<bar>x\<bar> / 2 ^ 53"
    using float_exponent_lower [OF pos] by (simp add: divide_right_mono)
  ultimately show ?thesis by linarith
qed

lemma to_double_abs:
  "\<bar>to_double x - x\<bar> \<le> \<bar>x\<bar> / 2 ^ 53 + pow2 (- 1075)"
proof (cases "pow2 (- 1022) \<le> \<bar>x\<bar>")
  case True
  then show ?thesis using to_double_rel [OF True] pow2_pos [of "- 1075"] by linarith
next
  case False
  show ?thesis
  proof (cases "x = 0")
    case True
    then show ?thesis using pow2_pos [of "- 1075"] by (simp add: to_double_zero less_imp_le)
  next
    case nz: False
    then have pos: "0 < \<bar>x\<bar>" by simp
    have "\<not> - 1022 < float_exponent \<bar>x\<bar>"
    proof
      assume "- 1022 < float_exponent \<bar>x\<bar>"
      then have "pow2 (- 1022) \<le> pow2 (float_exponent \<bar>x\<bar>)" by (intro pow2_mono) simp
      then show False using float_exponent_lower [OF pos] False by linarith
    qed
    then have m: "max (float_exponent \<bar>x\<bar>) (- 1022) = - 1022" by simp
    have "\<bar>to_double x - x\<bar> \<le> pow2 (- 1022 - 52) / 2"
      using to_double_err_ulp [OF nz] by (simp only: m)
    moreover have "pow2 (- 1022 - 52) / 2 = pow2 (- 1075)"
      using pow2_add [of "- 1075" 1] by (simp add: pow2_def)
    ultimately show ?thesis by simp
  qed
qed

lemma decimal2_err: "\<bar>decimal2 x - x\<bar> \<le> 1 / 200"
proof -
  have "\<bar>of_int (round_half_even (x * 100)) - x * 100\<bar> \<le> 1 / 2"
    by (rule round_half_even_err)
  then show ?thesis by (simp add: decimal2_def abs_le_iff field_simps)
qed

lemma float_sub_err:
  assumes "\<bar>b - a\<bar> \<le> 2 ^ 45"
  shows "\<bar>float_sub b a - (b - a)\<bar> < 1 / 200"
proof -
  have "\<bar>float_sub b a - (b - a)\<bar> \<le> \<bar>b - a\<bar> / 2 ^ 53 + pow2 (- 1075)"
    unfolding float_sub_def by (rule to_double_abs)
  moreover have "\<bar>b - a\<bar> / 2 ^ 53 \<le> 2 ^ 45 / 2 ^ 53"
    using assms by (rule divide_right_mono) simp
  moreover have "pow2 (- 1075) \<le> pow2 (- 10)" by (rule pow2_mono) simp
  moreover have "pow2 (- 10) = 1 / 1024" by (simp add: pow2_def)
  moreover have "(2::rat) ^ 45 / 2 ^ 53 = 1 / 256" by simp
  ultimately show ?thesis by linarith
qed

lemma decimal_grid:
  assumes "\<bar>b - a\<bar> \<le> 2 ^ 45"
  shows "\<bar>round_half_even (float_sub b a * 100)
          - (round_half_even (b * 100) - round_half_even (a * 100))\<bar> \<le> 1"
proof -
  define d where "d = float_sub b a"
  define A B C where "A = round_half_even (a * 100)" and "B = round_half_even (b * 100)"
    and "C = round_half_even (d * 100)"
  have ea: "\<bar>of_int A - a * 100\<bar> \<le> 1 / 2" unfolding A_def by (rule round_half_even_err)
  have eb: "\<bar>of_int B - b * 100\<bar> \<le> 1 / 2" unfolding B_def by (rule round_half_even_err)
  have ec: "\<bar>of_int C - d * 100\<bar> \<le> 1 / 2" unfolding C_def by (rule round_half_even_err)
  have ed: "\<bar>d - (b - a)\<bar> < 1 / 200" unfolding d_def using assms by (rule float_sub_err)
  have "\<bar>(of_int (C - (B - A)) :: rat)\<bar> < 2"
    using ea eb ec ed unfolding abs_le_iff abs_less_iff of_int_diff by (auto simp: algebra_simps)
  then have "\<bar>C - (B - A)\<bar> < 2"
    by (metis of_int_abs of_int_less_iff of_int_numeral)
  then show ?thesis unfolding A_def B_def C_def d_def by linarith
qed

lemma round2_repr: "\<bar>round2 x - decimal2 x\<bar> \<le> \<bar>round2 x\<bar> / 2 ^ 52"
proof (cases "round_half_even (x * 100) = 0")
  case True
  then show ?thesis by (simp add: round2_def decimal2_def to_double_zero)
next
  case False
  define y where "y = decimal2 x"
  have "1 \<le> \<bar>round_half_even (x * 100)\<bar>" using False by linarith
  then have "(1::rat) \<le> \<bar>of_int (round_half_even (x * 100))\<bar>"
    by (metis of_int_abs of_int_1 of_int_le_iff)
  then have y: "1 / 100 \<le> \<bar>y\<bar>" by (simp add: y_def decimal2_def)
  have "pow2 (- 1022) \<le> pow2 (- 7)" by (rule pow2_mono) simp
  moreover have "pow2 (- 7) = 1 / 128" by (simp add: pow2_def)
  ultimately have "pow2 (- 1022) \<le> \<bar>y\<bar>" using y by linarith
  then have r: "\<bar>to_double y - y\<bar> \<le> \<bar>y\<bar> / 2 ^ 53" by (rule to_double_rel)
  have "\<bar>y\<bar> / 2 ^ 53 \<le> \<bar>y\<bar> / 2" by (rule divide_left_mono) simp_all
  then have "\<bar>y\<bar> \<le> 2 * \<bar>to_double y\<bar>" using r by linarith
  then have "\<bar>y\<bar> / 2 ^ 53 \<le> 2 * \<bar>to_double y\<bar> / 2 ^ 53" by (rule divide_right_mono) simp
  then have "\<bar>to_double y - y\<bar> \<le> \<bar>to_double y\<bar> / 2 ^ 52" using r by simp
  then show ?thesis by (simp add: round2_def y_def)
qed

text \<open>
  Evaluating \<open>to_double\<close> and \<open>decimal2\<close>: the exponent and the rounded integer are
  determined by their bounds.
\<close>

lemma round_half_even_unique:
  assumes "\<bar>x - of_int k\<bar> < 1 / 2"
  shows "round_half_even x = k"
proof -
  have f: "of_int \<lfloor>x\<rfloor> \<le> x" "x < of_int \<lfloor>x\<rfloor> + 1" by linarith+
  have b: "of_int k - 1 / 2 < x" "x < of_int k + 1 / 2"
    using assms unfolding abs_less_iff by linarith+
  have "of_int k - 1 < (of_int \<lfloor>x\<rfloor> :: rat) + 1" using f(2) b(1) by linarith
  then have "of_int (k - 1) < (of_int (\<lfloor>x\<rfloor> + 1) :: rat)" by simp
  then have "k - 1 < \<lfloor>x\<rfloor> + 1" by (simp only: of_int_less_iff)
  then have l: "k - 1 \<le> \<lfloor>x\<rfloor>" by linarith
  have "(of_int \<lfloor>x\<rfloor> :: rat) < of_int k + 1" using f(1) b(2) by linarith
  then have "(of_int \<lfloor>x\<rfloor> :: rat) < of_int (k + 1)" by simp
  then have "\<lfloor>x\<rfloor> < k + 1" by (simp only: of_int_less_iff)
  then have u: "\<lfloor>x\<rfloor> \<le> k" by linarith
  from l u have "\<lfloor>x\<rfloor> = k \<or> \<lfloor>x\<rfloor> = k - 1" by linarith
  then show ?thesis
  proof
    assume a: "\<lfloor>x\<rfloor> = k"
    then have "x - of_int \<lfloor>x\<rfloor> < 1 / 2" using b(2) by simp
    then show ?thesis using a by (simp add: round_half_even_def Let_def)
  next
    assume a: "\<lfloor>x\<rfloor> = k - 1"
    then have "1 / 2 < x - of_int \<lfloor>x\<rfloor>" using b(1) by simp
    then have "\<not> x - of_int \<lfloor>x\<rfloor> < 1 / 2" by simp
    then show ?thesis using a \<open>1 / 2 < x - of_int \<lfloor>x\<rfloor>\<close>
      by (simp add: round_half_even_def Let_def)
  qed
qed

lemma float_exponent_unique:
  assumes "pow2 e \<le> x" "x < pow2 (e + 1)"
  shows "float_exponent x = e"
proof -
  have pos: "0 < x" using assms(1) pow2_pos [of e] by linarith
  note l = float_exponent_lower [OF pos] and u = float_exponent_upper [OF pos]
  have "\<not> float_exponent x + 1 \<le> e"
  proof
    assume "float_exponent x + 1 \<le> e"
    then have "pow2 (float_exponent x + 1) \<le> pow2 e" by (rule pow2_mono)
    then show False using u assms(1) by linarith
  qed
  moreover have "\<not> e + 1 \<le> float_exponent x"
  proof
    assume "e + 1 \<le> float_exponent x"
    then have "pow2 (e + 1) \<le> pow2 (float_exponent x)" by (rule pow2_mono)
    then show False using l assms(2) by linarith
  qed
  ultimately show ?thesis by linarith
qed

lemma to_double_eval:
  assumes "pow2 e \<le> \<bar>x\<bar>" "\<bar>x\<bar> < pow2 (e + 1)" "- 1022 \<le> e"
    and "\<bar>x / pow2 (e - 52) - of_int k\<bar> < 1 / 2"
  shows "to_double x = of_int k * pow2 (e - 52)"
proof -
  have "0 < \<bar>x\<bar>" using assms(1) pow2_pos [of e] by linarith
  then have nz: "x \<noteq> 0" by simp
  have fe: "float_exponent \<bar>x\<bar> = e" using assms(1,2) by (rule float_exponent_unique)
  have m: "max e (- 1022) = e" using assms(3) by simp
  show ?thesis
    using nz round_half_even_unique [OF assms(4)]
    by (simp add: to_double_def Let_def fe m)
qed

lemma td22: "to_double (22 / 100) = 7926335344172073 / 36028797018963968"
  using to_double_eval [of "- 3" "22 / 100" 7926335344172073]
  by (simp add: pow2_def)

lemma td67: "to_double (67 / 100) = 6034823500676465 / 9007199254740992"
  using to_double_eval [of "- 1" "67 / 100" 6034823500676465]
  by (simp add: pow2_def)

lemma td44: "to_double (44 / 100) = 7926335344172073 / 18014398509481984"
  using to_double_eval [of "- 2" "44 / 100" 7926335344172073]
  by (simp add: pow2_def)

lemma td49: "to_double (4 / 9) = 8006399337547548 / 18014398509481984"
  using to_double_eval [of "- 2" "4 / 9" 8006399337547548]
  by (simp add: pow2_def)

lemma td001: "to_double (1 / 100) = 5764607523034235 / 576460752303423488"
  using to_double_eval [of "- 7" "1 / 100" 5764607523034235]
  by (simp add: pow2_def)

lemma decimal2_eval: "\<bar>x * 100 - of_int k\<bar> < 1 / 2 \<Longrightarrow> decimal2 x = of_int k / 100"
  by (simp add: decimal2_def round_half_even_unique)

lemma process_humanized:
  "humanized (fst (process R seg text g)) =
     fst (optimize_rhythm R seg (fst (inject_linguistic_noise R seg text g))
            (snd (inject_linguistic_noise R seg text g)))"
  by (simp add: process_unfold Let_def)

lemma process_metrics:
  "metrics (fst (process R seg text g)) =
     \<lparr>initial_burstiness = round2 (analyze_burstiness seg text),
      final_burstiness = round2 (analyze_burstiness seg (humanized (fst (process R seg text g)))),
      improvement = round2 (float_sub (analyze_burstiness seg (humanized (fst (process R seg text g))))
                      (analyze_burstiness seg text))\<rparr>"
  by (simp add: process_unfold Let_def)

lemma example_text:
  "humanized (fst (process tape_rng period_seg
     ''a b c d e f. a b c d e f g. a b c d e f g.'' [5, 5, 0, 3, 1, 5, 5]))
   = ''a b c d e f. a b c d e f g. a b c d basically e f g.''"
  unfolding process_humanized by code_simp

lemma example_initial:
  "analyze_burstiness period_seg ''a b c d e f. a b c d e f g. a b c d e f g.'' = 2 / 9"
  by code_simp

lemma example_final:
  "analyze_burstiness period_seg ''a b c d e f. a b c d e f g. a b c d basically e f g.'' = 2 / 3"
  by code_simp

lemma example_metrics_eval:
  "example_metrics =
     \<lparr>initial_burstiness = to_double (22 / 100),
      final_burstiness = to_double (67 / 100),
      improvement = to_double (44 / 100)\<rparr>"
proof -
  have "\<bar>2 / 9 * 100 - of_int 22\<bar> < (1 / 2 :: rat)" by simp
  from decimal2_eval [OF this] have i: "decimal2 (2 / 9) = 22 / 100"
    by (simp only: of_int_numeral)
  have "\<bar>2 / 3 * 100 - of_int 67\<bar> < (1 / 2 :: rat)" by simp
  from decimal2_eval [OF this] have f: "decimal2 (2 / 3) = 67 / 100"
    by (simp only: of_int_numeral)
  have "(2 / 3 - 2 / 9 :: rat) = 4 / 9" by simp
  then have s: "float_sub (2 / 3) (2 / 9) = 8006399337547548 / 18014398509481984"
    by (simp only: float_sub_def td49)
  have "\<bar>8006399337547548 / 18014398509481984 * 100 - of_int 44\<bar> < (1 / 2 :: rat)" by simp
  from decimal2_eval [OF this]
  have d: "decimal2 (8006399337547548 / 18014398509481984) = 44 / 100"
    by (simp only: of_int_numeral)
  show ?thesis
    unfolding example_metrics_def process_metrics example_text example_initial example_final
    by (simp only: round2_def i f s d)
qed


text \<open>
  C5, as the specification states it, fails. With word counts 6, 7, 7 turned into
  6, 7, 8 by one inserted filler the burstiness goes from 2/9 to 2/3 and the
  metrics are the doubles nearest 0.22, 0.67 and 0.44. The two-decimal values
  differ by exactly 0.01 (0.44 against 0.67 - 0.22 = 0.45), and the doubles differ
  by more than 0.01.
\<close>

theorem improvement_tolerance_counterexample:
  "initial_burstiness example_metrics = to_double (22 / 100)
   \<and> final_burstiness example_metrics = to_double (67 / 100)
   \<and> improvement example_metrics = to_double (44 / 100)
   \<and> 1 / 100 < \<bar>improvement example_metrics
                  - (final_burstiness example_metrics - initial_burstiness example_metrics)\<bar>"
proof -
  have "(1 / 100 :: rat) < \<bar>7926335344172073 / 18014398509481984
      - (6034823500676465 / 9007199254740992 - 7926335344172073 / 36028797018963968)\<bar>"
    by simp
  then have "1 / 100 < \<bar>to_double (44 / 100) - (to_double (67 / 100) - to_double (22 / 100))\<bar>"
    by (simp only: td22 td67 td44)
  then show ?thesis by (simp only: example_metrics_eval metrics.simps simp_thms)
qed

lemma abs_triple:
  fixes d :: rat
  assumes "\<bar>d' - d\<bar> \<le> ed" "\<bar>f' - f\<bar> \<le> ef" "\<bar>i' - i\<bar> \<le> ei" "\<bar>d - (f - i)\<bar> \<le> c"
  shows "\<bar>d' - (f' - i')\<bar> \<le> c + (ed + ef + ei)"
  using assms unfolding abs_le_iff by linarith


text \<open>
  C5, amended: in the result of \<open>process\<close> each of the three metrics is the double
  nearest to a two-decimal value (the initial burstiness, the final burstiness and
  their float difference, each rounded to two decimals). The two-decimal value of
  \<open>improvement\<close> differs from that of \<open>final_burstiness\<close> minus that of
  \<open>initial_burstiness\<close> by at most 0.01, and on the doubles \<open>improvement\<close> equals
  \<open>final_burstiness - initial_burstiness\<close> within 0.01 plus the representation error
  of the three doubles, at most \<open>2^-52\<close> of their magnitudes. This holds while the
  unrounded difference is at most \<open>2^45\<close> in magnitude; beyond that the float
  subtraction itself loses hundredths.
\<close>

theorem improvement_tolerance:
  assumes "\<bar>analyze_burstiness seg (humanized (fst (process R seg text g)))
            - analyze_burstiness seg text\<bar> \<le> 2 ^ 45"
  shows "(let res = fst (process R seg text g); m = metrics res;
              i = analyze_burstiness seg text; f = analyze_burstiness seg (humanized res)
          in initial_burstiness m = round2 i
           \<and> final_burstiness m = round2 f
           \<and> improvement m = round2 (float_sub f i)
           \<and> (\<exists>ki kf kd :: int.
                 initial_burstiness m = to_double (of_int ki / 100)
               \<and> final_burstiness m = to_double (of_int kf / 100)
               \<and> improvement m = to_double (of_int kd / 100)
               \<and> \<bar>kd - (kf - ki)\<bar> \<le> 1)
           \<and> \<bar>improvement m - (final_burstiness m - initial_burstiness m)\<bar>
               \<le> 1 / 100 + (\<bar>improvement m\<bar> + \<bar>final_burstiness m\<bar> + \<bar>initial_burstiness m\<bar>) / 2 ^ 52)"
proof -
  define res where "res = fst (process R seg text g)"
  define i where "i = analyze_burstiness seg text"
  define f where "f = analyze_burstiness seg (humanized res)"
  define ki kf kd where "ki = round_half_even (i * 100)" and "kf = round_half_even (f * 100)"
    and "kd = round_half_even (float_sub f i * 100)"
  have mi: "initial_burstiness (metrics res) = round2 i"
    and mf: "final_burstiness (metrics res) = round2 f"
    and md: "improvement (metrics res) = round2 (float_sub f i)"
    by (simp_all add: res_def i_def f_def process_unfold Let_def)
  have di: "decimal2 i = of_int ki / 100" and df: "decimal2 f = of_int kf / 100"
    and dd: "decimal2 (float_sub f i) = of_int kd / 100"
    by (simp_all add: decimal2_def ki_def kf_def kd_def)
  have grid: "\<bar>kd - (kf - ki)\<bar> \<le> 1"
    using assms decimal_grid [of f i] by (simp add: ki_def kf_def kd_def f_def i_def res_def)
  then have "\<bar>(of_int (kd - (kf - ki)) :: rat)\<bar> \<le> 1"
    by (metis of_int_abs of_int_le_iff of_int_1)
  then have dec: "\<bar>decimal2 (float_sub f i) - (decimal2 f - decimal2 i)\<bar> \<le> 1 / 100"
    by (simp add: di df dd abs_le_iff field_simps)
  have ri: "\<bar>round2 i - decimal2 i\<bar> \<le> \<bar>round2 i\<bar> / 2 ^ 52"
    and rf: "\<bar>round2 f - decimal2 f\<bar> \<le> \<bar>round2 f\<bar> / 2 ^ 52"
    and rd: "\<bar>round2 (float_sub f i) - decimal2 (float_sub f i)\<bar> \<le> \<bar>round2 (float_sub f i)\<bar> / 2 ^ 52"
    by (rule round2_repr)+
  have "\<bar>round2 (float_sub f i) - (round2 f - round2 i)\<bar>
      \<le> 1 / 100 + (\<bar>round2 (float_sub f i)\<bar> / 2 ^ 52 + \<bar>round2 f\<bar> / 2 ^ 52
                      + \<bar>round2 i\<bar> / 2 ^ 52)"
    by (rule abs_triple [OF rd rf ri dec])
  then have bound: "\<bar>round2 (float_sub f i) - (round2 f - round2 i)\<bar>
      \<le> 1 / 100 + (\<bar>round2 (float_sub f i)\<bar> + \<bar>round2 f\<bar> + \<bar>round2 i\<bar>) / 2 ^ 52"
    by (simp only: add_divide_distrib)
  have ex: "\<exists>ki kf kd :: int.
                 initial_burstiness (metrics res) = to_double (of_int ki / 100)
               \<and> final_burstiness (metrics res) = to_double (of_int kf / 100)
               \<and> improvement (metrics res) = to_double (of_int kd / 100)
               \<and> \<bar>kd - (kf - ki)\<bar> \<le> 1"
    using grid mi mf md di df dd unfolding round2_def
    by (intro exI [of _ ki] exI [of _ kf] exI [of _ kd]) simp
  show ?thesis
    unfolding Let_def res_def [symmetric] i_def [symmetric] f_def [symmetric]
    using mi mf md ex bound by simp
qed

theorem improvement_tolerance_witness:
  "\<bar>analyze_burstiness period_seg (humanized (fst (process tape_rng period_seg
        ''a b c d e f. a b c d e f g. a b c d e f g.'' [5, 5, 0, 3, 1, 5, 5])))
      - analyze_burstiness period_seg ''a b c d e f. a b c d e f g. a b c d e f g.''\<bar> \<le> 2 ^ 45
   \<and> \<bar>improvement example_metrics
        - (final_burstiness example_metrics - initial_burstiness example_metrics)\<bar>
       \<le> 1 / 100 + (\<bar>improvement example_metrics\<bar> + \<bar>final_burstiness example_metrics\<bar>
                        + \<bar>initial_burstiness example_metrics\<bar>) / 2 ^ 52"
proof -
  have "\<bar>2 / 3 - 2 / 9\<bar> \<le> (2 ^ 45 :: rat)" by simp
  then have h: "\<bar>analyze_burstiness period_seg (humanized (fst (process tape_rng period_seg
        ''a b c d e f. a b c d e f g. a b c d e f g.'' [5, 5, 0, 3, 1, 5, 5])))
      - analyze_burstiness period_seg ''a b c d e f. a b c d e f g. a b c d e f g.''\<bar> \<le> 2 ^ 45"
    by (simp only: example_text example_initial example_final)
  show ?thesis
    using improvement_tolerance [OF h] h unfolding Let_def example_metrics_def by blast
qed

lemma period_seg_empty: "period_seg [] = []"
  by (simp add: period_seg_def)

text \<open>
  C6: on the empty text, provided the segmenter finds no sentence in it,
  \<open>analyze_burstiness\<close> returns 0 and \<open>process\<close> returns the empty text with all three
  metrics 0, without touching the generator: a defined case, no error.
\<close>

theorem process_empty:
  assumes "seg [] = []"
  shows "analyze_burstiness seg [] = 0 \<and>
         process R seg [] g =
           (\<lparr>humanized = [],
             metrics = \<lparr>initial_burstiness = 0, final_burstiness = 0, improvement = 0\<rparr>\<rparr>, g)"
proof -
  have a: "analyze_burstiness seg [] = 0"
    using assms by (simp add: analyze_burstiness_def lengths_def)
  have i: "inject_linguistic_noise R seg [] g = ([], g)"
    using assms by (simp add: inject_linguistic_noise_def)
  have opt: "optimize_rhythm R seg [] g = ([], g)"
    using assms by (simp add: optimize_rhythm_def)
  show ?thesis
    by (simp add: a process_unfold i opt round2_zero float_sub_def to_double_zero)
qed

theorem process_empty_witness:
  "period_seg [] = [] \<and> analyze_burstiness period_seg [] = 0 \<and>
   process tape_rng period_seg [] [3, 1, 4] =
     (\<lparr>humanized = [],
       metrics = \<lparr>initial_burstiness = 0, final_burstiness = 0, improvement = 0\<rparr>\<rparr>, [3, 1, 4])"
  using process_empty [of period_seg tape_rng "[3, 1, 4]"] period_seg_empty by simp

section \<open>Transition substitution\<close>

lemma re_sub_opener_match:
  "List.find (startswith s) alts = Some p \<Longrightarrow>
     re_sub_opener alts repl s = repl @ dropWhile is_space (skip_comma (drop (length p) s))"
  by (simp add: re_sub_opener_def)

lemma find_addition:
  "p \<in> set addition_openers \<Longrightarrow> List.find (startswith (p @ rest)) addition_openers = Some p"
  by (auto simp: addition_openers_def startswith_def)

lemma startswith_addition:
  "p \<in> set addition_openers \<Longrightarrow> startswith_any (p @ rest) addition_openers"
  by (auto simp: addition_openers_def startswith_def startswith_any_def)

lemma variations_addition:
  "variations ''addition'' = [''Plus,'', ''And also,'', ''On top of that,'', ''Not to mention,'']"
  by (simp add: variations_def transition_variations_def)

lemma variations_contrast:
  "variations ''contrast'' = [''But honestly,'', ''Though,'', ''Still,'', ''On the flip side,'']"
  by (simp add: variations_def transition_variations_def)

lemma break_addition:
  assumes "p \<in> set addition_openers"
  shows "break_transition R (p @ rest) g =
     (fst (random_choice R (variations ''addition'') g) @ '' ''
        @ dropWhile is_space (skip_comma rest),
      snd (random_choice R (variations ''addition'') g))"
  using startswith_addition [OF assms, of rest] find_addition [OF assms, of rest]
  by (simp add: break_transition_def case_prod_unfold Let_def re_sub_opener_match)

lemma break_contrast:
  "break_transition R (''However'' @ rest) g =
     (fst (random_choice R (variations ''contrast'') g) @ '' ''
        @ dropWhile is_space (skip_comma rest),
      snd (random_choice R (variations ''contrast'') g))"
proof -
  have a: "\<not> startswith_any (''However'' @ rest) addition_openers"
    by (simp add: addition_openers_def startswith_def startswith_any_def)
  have b: "startswith (''However'' @ rest) ''However''"
    by (simp add: startswith_def)
  have c: "List.find (startswith (''However'' @ rest)) contrast_openers = Some ''However''"
    using b by (simp add: contrast_openers_def)
  show ?thesis
    using a b re_sub_opener_match [OF c]
    by (simp add: break_transition_def case_prod_unfold Let_def)
qed

lemma break_none:
  assumes "\<not> startswith_any s (addition_openers @ contrast_openers)"
  shows "break_transition R s g = (s, g)"
  using assms
  by (simp add: break_transition_def startswith_any_def contrast_openers_def)

lemma token_match_prefix:
  assumes "spec_leading_token_match openers sent"
  shows "startswith_any (strip sent) openers"
proof -
  from assms obtain tok ws where s: "split sent = tok # ws"
    and m: "tok \<in> set openers \<or> tok \<in> set (map (\<lambda>p. p @ '','') openers)"
    by (auto simp: spec_leading_token_match_def split: list.splits)
  from m obtain p where p: "p \<in> set openers" "prefix p tok" by auto
  have "prefix p (strip sent)"
    using p(2) token_prefix_strip [OF s] by (rule prefix_order.trans)
  then show ?thesis using p(1) by (auto simp: startswith_any_def startswith_def list_ex_iff)
qed

lemma startswith_anyE:
  "startswith_any s ps \<Longrightarrow> \<exists>p rest. p \<in> set ps \<and> s = p @ rest"
  by (auto simp: startswith_any_def startswith_def list_ex_iff prefix_def)

lemma addition_changes:
  assumes "p \<in> set addition_openers" "v \<in> set (variations ''addition'')"
  shows "v @ '' '' @ x \<noteq> p @ rest"
  using assms by (auto simp: addition_openers_def variations_addition)

lemma contrast_changes:
  assumes "v \<in> set (variations ''contrast'')"
  shows "v @ '' '' @ x \<noteq> ''However'' @ rest"
  using assms by (auto simp: variations_contrast)

lemma break_changes_iff:
  assumes "rng_ok R"
  shows "(fst (break_transition R s g) \<noteq> s) = startswith_any s (addition_openers @ contrast_openers)"
proof (cases "startswith_any s (addition_openers @ contrast_openers)")
  case False
  then show ?thesis by (simp add: break_none)
next
  case True
  then obtain p rest where p: "p \<in> set (addition_openers @ contrast_openers)" "s = p @ rest"
    using startswith_anyE by blast
  have va: "fst (random_choice R (variations ''addition'') g) \<in> set (variations ''addition'')"
    using assms by (intro choice_mem) (simp_all add: variations_addition)
  have vc: "fst (random_choice R (variations ''contrast'') g) \<in> set (variations ''contrast'')"
    using assms by (intro choice_mem) (simp_all add: variations_contrast)
  show ?thesis
  proof (cases "p \<in> set addition_openers")
    case True
    then show ?thesis
      using \<open>startswith_any s (addition_openers @ contrast_openers)\<close> p(2)
        addition_changes [OF True va, of "dropWhile is_space (skip_comma rest)" rest]
      by (simp add: break_addition)
  next
    case False
    then have "p = ''However''" using p(1) by (simp add: contrast_openers_def)
    then show ?thesis
      using \<open>startswith_any s (addition_openers @ contrast_openers)\<close> p(2)
        contrast_changes [OF vc, of "dropWhile is_space (skip_comma rest)" rest]
        break_contrast [of R rest g]
      by simp
  qed
qed

text \<open>
  What step 1 computes, case by case, and examples of it: the substitution at the
  start of the sentence, sentences left as they are, and a leading opener token as
  a case of the prefix test.
\<close>

lemma break_transition_cases:
  assumes "rng_ok R"
  shows "((fst (break_transition R s g) \<noteq> s)
            = startswith_any s (addition_openers @ contrast_openers))
     \<and> (\<not> startswith_any s (addition_openers @ contrast_openers) \<longrightarrow>
           break_transition R s g = (s, g))
     \<and> (p \<in> set addition_openers \<longrightarrow>
           break_transition R (p @ rest) g =
             (fst (random_choice R (variations ''addition'') g) @ '' ''
                @ dropWhile is_space (skip_comma rest),
              snd (random_choice R (variations ''addition'') g))
           \<and> fst (random_choice R (variations ''addition'') g)
               \<in> set [''Plus,'', ''And also,'', ''On top of that,'', ''Not to mention,''])
     \<and> (break_transition R (''However'' @ rest) g =
             (fst (random_choice R (variations ''contrast'') g) @ '' ''
                @ dropWhile is_space (skip_comma rest),
              snd (random_choice R (variations ''contrast'') g))
           \<and> fst (random_choice R (variations ''contrast'') g)
               \<in> set [''But honestly,'', ''Though,'', ''Still,'', ''On the flip side,''])
     \<and> (spec_leading_token_match (addition_openers @ contrast_openers) sent \<longrightarrow>
           startswith_any (strip sent) (addition_openers @ contrast_openers))"
proof -
  have va: "fst (random_choice R (variations ''addition'') g)
      \<in> set [''Plus,'', ''And also,'', ''On top of that,'', ''Not to mention,'']"
    using choice_mem [OF assms, of "variations ''addition''" g]
    by (simp add: variations_addition)
  have vc: "fst (random_choice R (variations ''contrast'') g)
      \<in> set [''But honestly,'', ''Though,'', ''Still,'', ''On the flip side,'']"
    using choice_mem [OF assms, of "variations ''contrast''" g]
    by (simp add: variations_contrast)
  show ?thesis
    using break_changes_iff [OF assms, of s g] break_none [of s R g]
      break_addition [of p R rest g] break_contrast [of R rest g] va vc
      token_match_prefix [of "addition_openers @ contrast_openers" sent]
    by blast
qed

lemma break_transition_examples:
  "rng_ok tape_rng
   \<and> ''Furthermore'' \<in> set addition_openers
   \<and> fst (break_transition tape_rng (''Furthermore'' @ '', this matters.'') [2])
       = ''On top of that, this matters.''
   \<and> \<not> startswith_any ''The cat sat.'' (addition_openers @ contrast_openers)
   \<and> break_transition tape_rng ''The cat sat.'' [2] = (''The cat sat.'', [2])
   \<and> \<not> startswith_any ''We said However, no.'' (addition_openers @ contrast_openers)
   \<and> break_transition tape_rng ''We said However, no.'' [2] = (''We said However, no.'', [2])
   \<and> spec_leading_token_match (addition_openers @ contrast_openers) '' However, it rained.''
   \<and> startswith_any (strip '' However, it rained.'') (addition_openers @ contrast_openers)"
proof -
  have m: "''Furthermore'' \<in> set addition_openers" by (simp add: addition_openers_def)
  have n: "\<not> startswith_any ''The cat sat.'' (addition_openers @ contrast_openers)"
    "\<not> startswith_any ''We said However, no.'' (addition_openers @ contrast_openers)"
    by code_simp+
  have k: "spec_leading_token_match (addition_openers @ contrast_openers) '' However, it rained.''"
    by code_simp
  have v: "fst (random_choice tape_rng (variations ''addition'') [2]) @ '' ''
        @ dropWhile is_space (skip_comma '', this matters.'') = ''On top of that, this matters.''"
    by code_simp
  note t = break_transition_cases [OF rng_ok_tape]
  have a: "fst (break_transition tape_rng (''Furthermore'' @ '', this matters.'') [2])
       = ''On top of that, this matters.''"
    using t [of _ _ "''Furthermore''" "'', this matters.''" _, where g = "[2]"] m v
    by (metis fst_conv)
  have b: "break_transition tape_rng ''The cat sat.'' [2] = (''The cat sat.'', [2])"
    using t [of "''The cat sat.''" "[2]"] n(1) by blast
  have c: "break_transition tape_rng ''We said However, no.'' [2] = (''We said However, no.'', [2])"
    using t [of "''We said However, no.''" "[2]"] n(2) by blast
  have d: "startswith_any (strip '' However, it rained.'') (addition_openers @ contrast_openers)"
    using t [where sent = "'' However, it rained.''"] k by blast
  show ?thesis using rng_ok_tape m a n b c k d by blast
qed

text \<open>
  C2: step 1 is to replace a leading transition word, with its comma, by a variant
  and one space, and to leave every other sentence as it is. The code tests the
  leading characters of the sentence and its pattern has no word boundary, so it
  also rewrites sentences whose leading token is not an opener: "Furthermores go."
  becomes "Plus, s go." and "Furthermore: this matters." becomes
  "Plus, : this matters.", where the claim leaves both untouched.
\<close>

theorem transition_word_boundary_slip:
  "\<not> spec_leading_token_match (addition_openers @ contrast_openers) ''Furthermores go.''
   \<and> fst (break_transition tape_rng (strip ''Furthermores go.'') [0]) = ''Plus, s go.''
   \<and> ''Plus, s go.'' \<noteq> strip ''Furthermores go.''
   \<and> \<not> spec_leading_token_match (addition_openers @ contrast_openers)
         ''Furthermore: this matters.''
   \<and> fst (break_transition tape_rng (strip ''Furthermore: this matters.'') [0])
       = ''Plus, : this matters.''"
  by code_simp

section \<open>Filler insertion\<close>

lemma inject_filler_fires:
  assumes "fst (gen_random R g) < 1 / 10" "5 < length (split s)"
  shows "fst (inject_filler R s g) =
     join '' '' (list_insert
        (fst (random_randint R 1 (length (split s) - 1) (snd (gen_random R g))))
        (fst (random_choice R filler_words
               (snd (random_randint R 1 (length (split s) - 1) (snd (gen_random R g))))))
        (split s))"
  using assms by (simp add: inject_filler_def case_prod_unfold Let_def)

lemma inject_filler_idle:
  assumes "\<not> (fst (gen_random R g) < 1 / 10 \<and> 5 < length (split s))"
  shows "inject_filler R s g = (s, snd (gen_random R g))"
  using assms by (auto simp add: inject_filler_def case_prod_unfold Let_def)

lemma inject_sentence_plain:
  assumes "\<not> startswith_any (strip sent) (addition_openers @ contrast_openers)"
  shows "inject_sentence R sent g = inject_filler R (strip sent) g"
  using break_none [OF assms, of R g] by (simp add: inject_sentence_def)

lemma inject_filler_split:
  assumes "fst (gen_random R g) < 1 / 10" "5 < length (split s)"
  shows "\<exists>idx w. 1 \<le> idx \<and>
     split (fst (inject_filler R s g)) = take idx (split s) @ split w @ drop idx (split s)"
proof -
  let ?idx = "fst (random_randint R 1 (length (split s) - 1) (snd (gen_random R g)))"
  have "1 \<le> ?idx" by (rule randint_ge)
  then show ?thesis
    using assms by (auto simp add: inject_filler_fires split_list_insert)
qed

lemma inject_filler_first_word:
  assumes "fst (gen_random R g) < 1 / 10" "5 < length (split s)"
  shows "split (fst (inject_filler R s g)) \<noteq> [] \<and>
     hd (split (fst (inject_filler R s g))) = hd (split s)"
proof -
  obtain idx w where i: "1 \<le> idx"
    and sp: "split (fst (inject_filler R s g)) = take idx (split s) @ split w @ drop idx (split s)"
    using inject_filler_split [OF assms] by blast
  have tk: "take idx (split s) \<noteq> []" using i assms(2) by auto
  show ?thesis using tk i by (simp add: sp hd_append)
qed

lemma inject_sentence_unfold:
  "inject_sentence R sent g =
     inject_filler R (fst (break_transition R (strip sent) g))
       (snd (break_transition R (strip sent) g))"
  by (simp add: inject_sentence_def case_prod_unfold Let_def)

lemma inject_filler_step:
  "(let r = fst (gen_random R g); g1 = snd (gen_random R g); words = split s_text;
      idx = fst (random_randint R 1 (length words - 1) g1);
      w = fst (random_choice R filler_words
                (snd (random_randint R 1 (length words - 1) g1)));
      out = fst (inject_filler R s_text g)
  in if r < 1 / 10 \<and> 5 < length words
     then out = join '' '' (list_insert idx w words) \<and> idx \<noteq> 0
        \<and> split out \<noteq> [] \<and> hd (split out) = hd words
        \<and> (rng_ok R \<longrightarrow> idx \<le> length words - 1 \<and> w \<in> set filler_words)
     else out = s_text)"
proof (cases "fst (gen_random R g) < 1 / 10 \<and> 5 < length (split s_text)")
  case False
  then show ?thesis
    using inject_filler_idle [of R g s_text] by (auto simp add: Let_def)
next
  case True
  define words where "words = split s_text"
  define g1 where "g1 = snd (gen_random R g)"
  define idx where "idx = fst (random_randint R 1 (length words - 1) g1)"
  define w where "w = fst (random_choice R filler_words
                  (snd (random_randint R 1 (length words - 1) g1)))"
  define out where "out = fst (inject_filler R s_text g)"
  have len: "5 < length words" using True by (simp add: words_def)
  have out: "out = join '' '' (list_insert idx w words)"
    using True inject_filler_fires [of R g s_text]
    by (simp add: out_def idx_def w_def words_def g1_def)
  have idx: "1 \<le> idx" unfolding idx_def by (rule randint_ge)
  have fw: "split out \<noteq> [] \<and> hd (split out) = hd words"
    using True inject_filler_first_word [of R g s_text] by (simp add: out_def words_def)
  have ne: "filler_words \<noteq> []" by (simp add: filler_words_def)
  have ok: "rng_ok R \<Longrightarrow> idx \<le> length words - 1 \<and> w \<in> set filler_words"
    using len ne unfolding idx_def w_def
    by (simp add: randint_le choice_mem)
  show ?thesis
    using True out idx fw ok
    by (simp add: Let_def out_def idx_def w_def words_def g1_def)
qed

text \<open>
  C3, as the specification states it, fails on sentences that an opener starts:
  both steps work on the same sentence, and step 2 sees it as step 1 left it. The
  sentence "Furthermore, a b c d" has 5 words; with the variant "And also," it has 6
  when it reaches step 2, so a filler is inserted, and the first word of the output
  is "And", not "Furthermore,". A 6-word sentence starting with "However," changes
  its first word in the same way.
\<close>

theorem filler_first_word_counterexample:
  "length (split ''Furthermore, a b c d'') = 5
   \<and> fst (break_transition tape_rng (strip ''Furthermore, a b c d'') [1, 0, 2, 4])
       = ''And also, a b c d''
   \<and> fst (inject_sentence tape_rng ''Furthermore, a b c d'' [1, 0, 2, 4])
       = ''And also, a kind of b c d''
   \<and> hd (split ''And also, a kind of b c d'') \<noteq> hd (split ''Furthermore, a b c d'')
   \<and> length (split ''However, a b c d e'') = 6
   \<and> fst (inject_sentence tape_rng ''However, a b c d e'' [1, 0, 2, 0])
       = ''Though, a b literally c d e''
   \<and> hd (split ''Though, a b literally c d e'') \<noteq> hd (split ''However, a b c d e'')"
  by code_simp

text \<open>
  C3, amended: for every sentence, the filler is inserted exactly when the draw of
  \<open>random()\<close> is below 0.1 and the sentence as it stands after transition
  substitution has more than 5 words. The filler is the pick of \<open>random_choice\<close>
  from \<open>filler_words\<close> and the index the draw of \<open>random_randint 1 (n - 1)\<close>, which is
  never 0, so for every generator and state the first word of the output sentence
  is the first word of the sentence after transition substitution; where no opener
  starts the sentence, that is the stripped input sentence, with the same words.
  For a generator that keeps its range promise the index is at most \<open>n - 1\<close> and
  the filler is one of the vocabulary.
\<close>

theorem filler_keeps_first_word:
  "(let s1 = fst (break_transition R (strip sent) g);
        g1 = snd (break_transition R (strip sent) g);
        r = fst (gen_random R g1); g2 = snd (gen_random R g1);
        words = split s1;
        idx = fst (random_randint R 1 (length words - 1) g2);
        w = fst (random_choice R filler_words
                  (snd (random_randint R 1 (length words - 1) g2)));
        out = fst (inject_sentence R sent g)
    in (if r < 1 / 10 \<and> 5 < length words
        then out = join '' '' (list_insert idx w words) \<and> idx \<noteq> 0
           \<and> split out \<noteq> [] \<and> hd (split out) = hd words
           \<and> (rng_ok R \<longrightarrow> idx \<le> length words - 1 \<and> w \<in> set filler_words)
        else out = s1)
       \<and> (\<not> startswith_any (strip sent) (addition_openers @ contrast_openers) \<longrightarrow>
            s1 = strip sent \<and> words = split sent))"
proof -
  have plain: "\<not> startswith_any (strip sent) (addition_openers @ contrast_openers) \<Longrightarrow>
      fst (break_transition R (strip sent) g) = strip sent
      \<and> split (fst (break_transition R (strip sent) g)) = split sent"
    by (simp add: break_none split_strip)
  show ?thesis
    using inject_filler_step [of R "snd (break_transition R (strip sent) g)"
        "fst (break_transition R (strip sent) g)"] plain
    unfolding Let_def inject_sentence_unfold by blast
qed

theorem filler_keeps_first_word_witness:
  "(fst (gen_random tape_rng (snd (break_transition tape_rng (strip ''Furthermore, a b c d'')
          [1, 0, 2, 4]))) < 1 / 10
      \<and> 5 < length (split (fst (break_transition tape_rng (strip ''Furthermore, a b c d'')
                [1, 0, 2, 4]))))
   \<and> hd (split (fst (inject_sentence tape_rng ''Furthermore, a b c d'' [1, 0, 2, 4])))
       = hd (split (fst (break_transition tape_rng (strip ''Furthermore, a b c d'') [1, 0, 2, 4])))
   \<and> \<not> startswith_any (strip '' Cats like to nap at noon.'') (addition_openers @ contrast_openers)
   \<and> (fst (gen_random tape_rng (snd (break_transition tape_rng
          (strip '' Cats like to nap at noon.'') [0, 7, 4]))) < 1 / 10
      \<and> 5 < length (split (fst (break_transition tape_rng
                (strip '' Cats like to nap at noon.'') [0, 7, 4]))))
   \<and> hd (split (fst (inject_sentence tape_rng '' Cats like to nap at noon.'' [0, 7, 4])))
       = hd (split '' Cats like to nap at noon.'')"
proof -
  have c: "fst (gen_random tape_rng (snd (break_transition tape_rng (strip ''Furthermore, a b c d'')
          [1, 0, 2, 4]))) < 1 / 10
      \<and> 5 < length (split (fst (break_transition tape_rng (strip ''Furthermore, a b c d'')
                [1, 0, 2, 4])))"
    by code_simp
  have a: "hd (split (fst (inject_sentence tape_rng ''Furthermore, a b c d'' [1, 0, 2, 4])))
       = hd (split (fst (break_transition tape_rng (strip ''Furthermore, a b c d'') [1, 0, 2, 4])))"
    using filler_keeps_first_word [of tape_rng "''Furthermore, a b c d''" "[1, 0, 2, 4]",
        unfolded Let_def if_P [OF c]]
    by blast
  have n: "\<not> startswith_any (strip '' Cats like to nap at noon.'') (addition_openers @ contrast_openers)"
    by code_simp
  have d: "fst (gen_random tape_rng (snd (break_transition tape_rng
          (strip '' Cats like to nap at noon.'') [0, 7, 4]))) < 1 / 10
      \<and> 5 < length (split (fst (break_transition tape_rng
                (strip '' Cats like to nap at noon.'') [0, 7, 4])))"
    by code_simp
  note t = filler_keeps_first_word [of tape_rng "'' Cats like to nap at noon.''" "[0, 7, 4]",
      unfolded Let_def if_P [OF d]]
  have w: "split (fst (break_transition tape_rng (strip '' Cats like to nap at noon.'') [0, 7, 4]))
      = split '' Cats like to nap at noon.''"
    using t n by blast
  have b: "hd (split (fst (inject_sentence tape_rng '' Cats like to nap at noon.'' [0, 7, 4])))
       = hd (split '' Cats like to nap at noon.'')"
    using t w by metis
  show ?thesis using c a n d b by blast
qed

text \<open>
  C10: \<open>filler_words\<close> contains the two-word entries "kind of" and "sort of"; when
  the filler step fires, the word count of the sentence grows by the word count of
  the chosen filler, so by 2 for these entries.
\<close>

theorem filler_word_count:
  "''kind of'' \<in> set filler_words \<and> length (split ''kind of'') = 2
   \<and> ''sort of'' \<in> set filler_words \<and> length (split ''sort of'') = 2
   \<and> (let g1 = snd (gen_random R g); words = split s_text;
           w = fst (random_choice R filler_words
                     (snd (random_randint R 1 (length words - 1) g1)))
       in fst (gen_random R g) < 1 / 10 \<and> 5 < length words \<longrightarrow>
            length (split (fst (inject_filler R s_text g))) = length words + length (split w))"
proof -
  have k: "''kind of'' \<in> set filler_words" "''sort of'' \<in> set filler_words"
    by (simp_all add: filler_words_def)
  have s: "length (split ''kind of'') = 2" "length (split ''sort of'') = 2"
    by (simp_all add: split_def is_space_def)
  have m: "fst (gen_random R g) < 1 / 10 \<Longrightarrow> 5 < length (split s_text) \<Longrightarrow>
     length (split (fst (inject_filler R s_text g))) = length (split s_text)
       + length (split (fst (random_choice R filler_words
            (snd (random_randint R 1 (length (split s_text) - 1) (snd (gen_random R g)))))))"
    by (simp add: inject_filler_fires split_list_insert)
  show ?thesis using k s m by (simp add: Let_def)
qed

theorem filler_word_count_witness:
  "(fst (gen_random tape_rng [0, 7, 4]) < 1 / 10
      \<and> 5 < length (split ''Cats like to nap at noon.''))
   \<and> fst (random_choice tape_rng filler_words
         (snd (random_randint tape_rng 1 (length (split ''Cats like to nap at noon.'') - 1)
                (snd (gen_random tape_rng [0, 7, 4]))))) = ''kind of''
   \<and> length (split (fst (inject_filler tape_rng ''Cats like to nap at noon.'' [0, 7, 4])))
       = length (split ''Cats like to nap at noon.'') + length (split ''kind of'')"
proof -
  have c: "fst (gen_random tape_rng [0, 7, 4]) < 1 / 10
      \<and> 5 < length (split ''Cats like to nap at noon.'')"
    by code_simp
  have k: "fst (random_choice tape_rng filler_words
         (snd (random_randint tape_rng 1 (length (split ''Cats like to nap at noon.'') - 1)
                (snd (gen_random tape_rng [0, 7, 4]))))) = ''kind of''"
    by code_simp
  have n: "length (split (fst (inject_filler tape_rng ''Cats like to nap at noon.'' [0, 7, 4])))
       = length (split ''Cats like to nap at noon.'') + length (split ''kind of'')"
    using filler_word_count [of tape_rng "[0, 7, 4]" "''Cats like to nap at noon.''",
        unfolded Let_def k] c
    by blast
  show ?thesis using c k n by blast
qed

section \<open>The rhythm optimizer\<close>

lemma optimize_loop_units:
  "optimize_loop R sents i new_text g =
     (new_text @ fst (optimize_units R (drop i sents) g), snd (optimize_units R (drop i sents) g))"
proof (induction R sents i new_text g rule: optimize_loop.induct)
  case (1 R sents i new_text g)
  show ?case
  proof (cases "i < length sents")
    case False
    then show ?thesis by (simp add: optimize_loop.simps [of R sents i])
  next
    case lt: True
    show ?thesis
    proof (cases "i + 1 < length sents")
      case False
      then have d: "drop i sents = [sents ! i]" "drop (i + 1) sents = []"
        using lt by (simp_all add: Cons_nth_drop_Suc [symmetric])
      show ?thesis
        using lt False "1.IH"(3) [OF lt refl] d
        by (simp add: optimize_loop.simps [of R sents i])
    next
      case True
      then have d: "drop i sents = sents ! i # sents ! (i + 1) # drop (i + 2) sents"
        "drop (i + 1) sents = sents ! (i + 1) # drop (i + 2) sents"
        using lt by (simp_all add: Cons_nth_drop_Suc [symmetric])
      show ?thesis
      proof (cases "length (split (strip (sents ! i))) < 10 \<and> length (split (sents ! (i + 1))) < 10")
        case False
        then show ?thesis
          using lt True "1.IH"(3) [OF lt refl] d
          by (auto simp add: optimize_loop.simps [of R sents i] case_prod_unfold)
      next
        case el: True
        obtain r g' where rg: "gen_random R g = (r, g')" by (cases "gen_random R g")
        show ?thesis
        proof (cases "r < 3 / 10")
          case True
          then show ?thesis
            using lt el \<open>i + 1 < length sents\<close> d rg
              "1.IH"(1) [OF lt refl _ refl rg [symmetric] True]
            by (simp add: optimize_loop.simps [of R sents i])
        next
          case False
          then show ?thesis
            using lt el \<open>i + 1 < length sents\<close> d rg
              "1.IH"(2) [OF lt refl _ refl rg [symmetric] False]
            by (simp add: optimize_loop.simps [of R sents i])
        qed
      qed
    qed
  qed
qed

lemma units_chunks:
  "\<exists>chunks. concat chunks = sents \<and> list_all (\<lambda>c. length c = 1 \<or> length c = 2) chunks
     \<and> fst (optimize_units R sents g) = map unit_of chunks"
proof (induction R sents g rule: optimize_units.induct)
  case (1 R g)
  have "concat [] = ([] :: string list) \<and> list_all (\<lambda>c. length c = 1 \<or> length c = 2) ([] :: string list list)
     \<and> fst (optimize_units R [] g) = map unit_of []" by simp
  then show ?case by blast
next
  case (2 R s g)
  have "concat [[s]] = [s] \<and> list_all (\<lambda>c. length c = 1 \<or> length c = 2) [[s]]
     \<and> fst (optimize_units R [s] g) = map unit_of [[s]]" by (simp add: unit_of_def)
  then show ?case by blast
next
  case (3 R s t rest g)
  let ?P = "list_all (\<lambda>c. length c = 1 \<or> length c = (2::nat))"
  show ?case
  proof (cases "length (split (strip s)) < 10 \<and> length (split t) < 10")
    case False
    from "3.IH" False obtain cs where
      cs: "concat cs = t # rest" "?P cs" "fst (optimize_units R (t # rest) g) = map unit_of cs"
      by blast
    have "concat ([s] # cs) = s # t # rest \<and> ?P ([s] # cs)
       \<and> fst (optimize_units R (s # t # rest) g) = map unit_of ([s] # cs)"
      using cs False by (auto simp add: unit_of_def)
    then show ?thesis by blast
  next
    case el: True
    show ?thesis
    proof (cases "fst (gen_random R g) < 3 / 10")
      case True
      from "3.IH" el True obtain cs where
        cs: "concat cs = rest" "?P cs"
          "fst (optimize_units R rest (snd (gen_random R g))) = map unit_of cs"
        by blast
      have "concat ([s, t] # cs) = s # t # rest \<and> ?P ([s, t] # cs)
         \<and> fst (optimize_units R (s # t # rest) g) = map unit_of ([s, t] # cs)"
        using cs el True by (simp add: unit_of_def)
      then show ?thesis by blast
    next
      case False
      from "3.IH" el False obtain cs where
        cs: "concat cs = t # rest" "?P cs"
          "fst (optimize_units R (t # rest) (snd (gen_random R g))) = map unit_of cs"
        by blast
      have "concat ([s] # cs) = s # t # rest \<and> ?P ([s] # cs)
         \<and> fst (optimize_units R (s # t # rest) g) = map unit_of ([s] # cs)"
        using cs el False by (simp add: unit_of_def)
      then show ?thesis by blast
    qed
  qed
qed

lemma optimize_rhythm_short:
  "length (seg text) < 2 \<Longrightarrow> optimize_rhythm R seg text g = (text, g)"
  by (simp add: optimize_rhythm_def)

lemma optimize_rhythm_long:
  "\<not> length (seg text) < 2 \<Longrightarrow>
     optimize_rhythm R seg text g =
       (join '' '' (fst (optimize_units R (seg text) g)), snd (optimize_units R (seg text) g))"
  by (simp add: optimize_rhythm_def optimize_loop_units Let_def case_prod_unfold)

text \<open>
  C7: \<open>optimize_rhythm\<close> returns its input (and the generator) unchanged when the
  segmenter yields fewer than 2 sentences. Otherwise the sentences fall into
  consecutive chunks of one or two, and the output is the chunks' units in order,
  joined by single spaces: a unit never takes in a third sentence, so a merged pair
  is not merged again in the same pass.
\<close>

theorem optimize_single_pass:
  "(length (seg text) < 2 \<longrightarrow> optimize_rhythm R seg text g = (text, g))
   \<and> (\<exists>chunks. concat chunks = seg text
         \<and> list_all (\<lambda>c. length c = 1 \<or> length c = 2) chunks
         \<and> fst (optimize_loop R (seg text) 0 [] g) = map unit_of chunks
         \<and> (2 \<le> length (seg text) \<longrightarrow>
              fst (optimize_rhythm R seg text g) = join '' '' (map unit_of chunks)))"
proof -
  obtain cs where cs: "concat cs = seg text" "list_all (\<lambda>c. length c = 1 \<or> length c = 2) cs"
     "fst (optimize_units R (seg text) g) = map unit_of cs"
    using units_chunks [of "seg text" R g] by blast
  have "fst (optimize_loop R (seg text) 0 [] g) = map unit_of cs"
    using cs by (simp add: optimize_loop_units)
  moreover have "2 \<le> length (seg text) \<longrightarrow>
      fst (optimize_rhythm R seg text g) = join '' '' (map unit_of cs)"
    using cs by (simp add: optimize_rhythm_long)
  ultimately show ?thesis using cs optimize_rhythm_short [of seg "text" R g] by blast
qed

theorem optimize_single_pass_witness:
  "length (period_seg ''  Hello there.  '') < 2
   \<and> optimize_rhythm tape_rng period_seg ''  Hello there.  '' [0] = (''  Hello there.  '', [0])
   \<and> 2 \<le> length (period_seg ''One. Two. Three.'')
   \<and> (\<exists>chunks. concat chunks = period_seg ''One. Two. Three.''
        \<and> list_all (\<lambda>c. length c = 1 \<or> length c = 2) chunks
        \<and> fst (optimize_rhythm tape_rng period_seg ''One. Two. Three.'' [0])
            = join '' '' (map unit_of chunks))"
proof -
  have l1: "length (period_seg ''  Hello there.  '') < 2" by code_simp
  have l2: "2 \<le> length (period_seg ''One. Two. Three.'')" by code_simp
  have a: "optimize_rhythm tape_rng period_seg ''  Hello there.  '' [0] = (''  Hello there.  '', [0])"
    using optimize_single_pass [of period_seg "''  Hello there.  ''" tape_rng "[0]"] l1 by blast
  have b: "\<exists>chunks. concat chunks = period_seg ''One. Two. Three.''
        \<and> list_all (\<lambda>c. length c = 1 \<or> length c = 2) chunks
        \<and> fst (optimize_rhythm tape_rng period_seg ''One. Two. Three.'' [0])
            = join '' '' (map unit_of chunks)"
    using optimize_single_pass [of period_seg "''One. Two. Three.''" tape_rng "[0]"] l2 by blast
  show ?thesis using l1 l2 a b by blast
qed

lemma single_pass_example:
  "fst (optimize_rhythm tape_rng period_seg ''One. Two. Three.'' [0, 0]) = ''One, and Two. Three.''"
  by code_simp

text \<open>
  C4: at a cursor position \<open>i\<close> with a next sentence, the loop emits the merged unit
  (the current sentence stripped of whitespace and of trailing full stops, then
  ", and ", then the next sentence stripped of whitespace) and moves on by 2 exactly
  when both sentences have fewer than 10 words and the draw of \<open>random()\<close> is below
  0.3; otherwise it emits the current sentence and moves on by 1. Two sentences of
  9 words each are eligible; two sentences of 10 words each are not merged,
  whatever the generator.
\<close>

theorem merge_threshold:
  assumes "i + 1 < length sents"
  shows "(let curr = strip (sents ! i); nxt = sents ! (i + 1);
              r = fst (gen_random R g); g' = snd (gen_random R g);
              eligible = (length (split curr) < 10 \<and> length (split nxt) < 10);
              out = fst (optimize_loop R sents i new_text g)
          in out = (if eligible \<and> r < 3 / 10
                    then new_text @ (rstrip_dot curr @ '', and '' @ strip nxt)
                           # fst (optimize_loop R sents (i + 2) [] g')
                    else new_text @ curr
                           # fst (optimize_loop R sents (i + 1) [] (if eligible then g' else g)))
           \<and> (length (split curr) = 9 \<and> length (split nxt) = 9 \<longrightarrow> eligible)
           \<and> (length (split curr) = 10 \<and> length (split nxt) = 10 \<longrightarrow>
                out = new_text @ curr # fst (optimize_loop R sents (i + 1) [] g)))"
proof -
  have d: "drop i sents = sents ! i # sents ! (i + 1) # drop (i + 2) sents"
    "drop (i + 1) sents = sents ! (i + 1) # drop (i + 2) sents"
    using assms by (simp_all add: Cons_nth_drop_Suc [symmetric])
  show ?thesis
    using d by (simp add: optimize_loop_units Let_def)
qed

theorem merge_threshold_witness:
  "0 + 1 < length [''a b c d e f g h i.'', ''j k l m n o p q r.'']
   \<and> length (split (strip ''a b c d e f g h i.'')) = 9
   \<and> fst (optimize_loop tape_rng [''a b c d e f g h i.'', ''j k l m n o p q r.''] 0 [] [2])
       = [''a b c d e f g h i, and j k l m n o p q r.'']
   \<and> 0 + 1 < length [''a b c d e f g h i j.'', ''k l m n o p q r s t.'']
   \<and> length (split (strip ''a b c d e f g h i j.'')) = 10
   \<and> fst (optimize_loop tape_rng [''a b c d e f g h i j.'', ''k l m n o p q r s t.''] 0 [] [2])
       = [''a b c d e f g h i j.'', ''k l m n o p q r s t.'']"
proof -
  let ?S = "[''a b c d e f g h i.'', ''j k l m n o p q r.'']"
  let ?T = "[''a b c d e f g h i j.'', ''k l m n o p q r s t.'']"
  have h: "0 + 1 < length ?S" "0 + 1 < length ?T" by simp_all
  have n: "length (split (strip ''a b c d e f g h i.'')) = 9"
    "length (split (strip ''a b c d e f g h i j.'')) = 10" by code_simp+
  have c: "(length (split (strip (?S ! 0))) < 10 \<and> length (split (?S ! (0 + 1))) < 10)
      \<and> fst (gen_random tape_rng [2]) < 3 / 10" by code_simp
  have m: "[] @ (rstrip_dot (strip (?S ! 0)) @ '', and '' @ strip (?S ! (0 + 1)))
        # fst (optimize_loop tape_rng ?S (0 + 2) [] (snd (gen_random tape_rng [2])))
      = [''a b c d e f g h i, and j k l m n o p q r.'']" by code_simp
  have a: "fst (optimize_loop tape_rng ?S 0 [] [2]) = [''a b c d e f g h i, and j k l m n o p q r.'']"
    using merge_threshold [OF h(1), of tape_rng "[2]" "[]", unfolded Let_def if_P [OF c] m]
    by blast
  have c': "length (split (strip (?T ! 0))) = 10 \<and> length (split (?T ! (0 + 1))) = 10"
    by code_simp
  have m': "[] @ strip (?T ! 0) # fst (optimize_loop tape_rng ?T (0 + 1) [] [2]) = ?T"
    by code_simp
  have b: "fst (optimize_loop tape_rng ?T 0 [] [2]) = ?T"
    using merge_threshold [OF h(2), of tape_rng "[2]" "[]", unfolded Let_def] c' m'
    by (metis (no_types, lifting))
  show ?thesis using h n a b by blast
qed

end
